theory Spec2Isabelle
  imports Main "HOL-Library.Word" "HOL-Library.Sublist"
begin

unbundle bit_operations_syntax

section \<open>Hippocampus Game for the STK500: the program state\<close>

text \<open>
  The program \<^verbatim>\<open>hippocampusgame.c\<close> runs on an ATmega8515 compiled with avr-gcc:
  \<^verbatim>\<open>unsigned char\<close> has 8 bits, \<^verbatim>\<open>int\<close> has 16 bits and \<^verbatim>\<open>unsigned long\<close> has 32 bits.
  Values of type \<^verbatim>\<open>int\<close> are modelled as HOL integers; wherever the C code would leave
  the range in which C defines the operation (a shift count, an array index), the
  model stops with the result \<open>Undefined\<close>.

  The program talks to the world through two ports and the library's random number
  generator:
  \<^item> every read of \<^verbatim>\<open>PIND\<close> takes the next sample of the list \<open>PIND_input\<close>; when the list
    is used up the execution stops with the result \<open>Starved\<close>, still holding the state
    reached so far. A busy-wait loop that never sees the sample it waits for is thus an
    execution that is \<open>Starved\<close> on every finite list of samples;
  \<^item> every write to \<^verbatim>\<open>PORTB\<close> is appended to the list \<open>PORTB_trace\<close> (oldest first);
  \<^item> the \<open>n\<close>-th call of \<^verbatim>\<open>random()\<close> returns \<open>rand_src n\<close>; the generator itself belongs
    to the C library and is not part of the program, so its outputs are a parameter.

  The writes to the direction registers \<^verbatim>\<open>DDRD\<close> and \<^verbatim>\<open>DDRB\<close> in \<^verbatim>\<open>main\<close> have no effect
  on any of this and are left out.
\<close>

type_synonym u8 = "8 word"
type_synonym u16 = "16 word"
type_synonym u32 = "32 word"

record state =
  sleep :: int
  keyboard :: u8
  seq :: u32
  seq_len :: int
  PORTB_trace :: "u8 list"
  PIND_input :: "u8 list"
  rand_src :: "nat \<Rightarrow> u32"
  rand_calls :: nat

datatype 'a result = Returned 'a | Starved | Undefined

type_synonym 'a prog = "state \<Rightarrow> 'a result \<times> state"

text \<open>Sequencing: the second program runs only when the first one has returned.\<close>

definition bnd :: "'a prog \<Rightarrow> ('a \<Rightarrow> 'b prog) \<Rightarrow> 'b prog" where
  "bnd f g s =
     (case f s of
        (Returned v, s') \<Rightarrow> g v s'
      | (Starved, s') \<Rightarrow> (Starved, s')
      | (Undefined, s') \<Rightarrow> (Undefined, s'))"

lemma bnd_cong [fundef_cong]:
  "f = f' \<Longrightarrow> s = s' \<Longrightarrow> (\<And>v t. f' s' = (Returned v, t) \<Longrightarrow> g v t = g' v t)
   \<Longrightarrow> bnd f g s = bnd f' g' s'"
  by (auto simp: bnd_def split: prod.splits result.splits)

text \<open>The statement \<^verbatim>\<open>PORTB = v;\<close>.\<close>

definition set_PORTB :: "u8 \<Rightarrow> state \<Rightarrow> state" where
  "set_PORTB v s = s\<lparr>PORTB_trace := PORTB_trace s @ [v]\<rparr>"

text \<open>The statement \<^verbatim>\<open>keyboard = PIND;\<close>.\<close>

definition sample_keyboard :: "unit prog" where
  "sample_keyboard s =
     (case PIND_input s of
        [] \<Rightarrow> (Starved, s)
      | x # xs \<Rightarrow> (Returned (), s\<lparr>keyboard := x, PIND_input := xs\<rparr>))"

text \<open>The call \<^verbatim>\<open>random()\<close>.\<close>

definition random :: "state \<Rightarrow> u32 \<times> state" where
  "random s = (rand_src s (rand_calls s), s\<lparr>rand_calls := Suc (rand_calls s)\<rparr>)"

lemma sample_keyboard_shorter:
  "sample_keyboard s = (Returned v, t) \<Longrightarrow> length (PIND_input t) < length (PIND_input s)"
  by (auto simp: sample_keyboard_def split: list.splits)

text \<open>The constants of the source.\<close>

definition lengths :: "int list" where
  "lengths = [5, 7, 9, 11]"

definition DELAYTIME :: int where
  "DELAYTIME = 300"

definition STANDBYTIMEOUT :: int where
  "STANDBYTIMEOUT = 20"

definition KEYTIMEOUT :: nat where
  "KEYTIMEOUT = 1000000"

section \<open>The delay primitive\<close>

text \<open>
  \<^verbatim>\<open>delay\<close>: the loop \<^verbatim>\<open>for(int i = 0; i < DELAYTIME; ++i)\<close>, entered at \<open>i\<close>. Each turn samples
  \<^verbatim>\<open>PIND\<close> into \<^verbatim>\<open>keyboard\<close>; an interruptible delay that sees a pressed key mirrors it to
  \<^verbatim>\<open>PORTB\<close> and returns 1; otherwise \<^verbatim>\<open>random()\<close> is called and its value dropped.
\<close>

function delay_loop :: "int \<Rightarrow> int \<Rightarrow> int prog" where
  "delay_loop interruptible i s =
     (if i < DELAYTIME then
        bnd sample_keyboard
          (\<lambda>_ s1.
             if interruptible \<noteq> 0 \<and> keyboard s1 \<noteq> 0xFF
             then (Returned 1, set_PORTB (keyboard s1) s1)
             else delay_loop interruptible (i + 1) (snd (random s1))) s
      else (Returned 0, s))"
  by pat_completeness auto
termination
  by (relation "measure (\<lambda>(interruptible, i, s). nat (DELAYTIME - i))") auto

declare delay_loop.simps [simp del]

definition delay :: "int \<Rightarrow> int prog" where
  "delay interruptible s = delay_loop interruptible 0 s"

text \<open>\<^verbatim>\<open>delay_long\<close>: the loop \<^verbatim>\<open>for(int i = 0; i < count; ++i)\<close>, entered at \<open>i\<close>.\<close>

function delay_long_loop :: "int \<Rightarrow> int \<Rightarrow> int \<Rightarrow> int prog" where
  "delay_long_loop count interruptible i s =
     (if i < count then
        bnd (delay interruptible)
          (\<lambda>r s1. if r \<noteq> 0 then (Returned 1, s1)
                   else delay_long_loop count interruptible (i + 1) s1) s
      else (Returned 0, s))"
  by pat_completeness auto
termination
  by (relation "measure (\<lambda>(count, interruptible, i, s). nat (count - i))") auto

declare delay_long_loop.simps [simp del]

definition delay_long :: "int \<Rightarrow> int \<Rightarrow> int prog" where
  "delay_long count interruptible s = delay_long_loop count interruptible 0 s"

section \<open>Symbols and LED patterns\<close>

text \<open>
  \<^verbatim>\<open>number2bits\<close>: \<^verbatim>\<open>~(0b1 << number)\<close> is computed in \<^verbatim>\<open>int\<close> (16 bits) and converted to
  \<^verbatim>\<open>unsigned char\<close>. C defines the shift only for \<open>0 \<le> number\<close> and \<open>2 ^ number\<close> within
  \<^verbatim>\<open>int\<close>, that is \<open>number < 15\<close>; elsewhere the model has no value.
\<close>

definition number2bits :: "int \<Rightarrow> u8 option" where
  "number2bits number =
     (if 0 \<le> number \<and> number < 15
      then Some (ucast (NOT (push_bit (nat number) (1 :: u16))))
      else None)"

text \<open>\<^verbatim>\<open>bits2number\<close>: the \<^verbatim>\<open>switch\<close> with its four cases, and 8 after it.\<close>

definition bits2number :: "u8 \<Rightarrow> int" where
  "bits2number bits =
     (if bits = 0xFE then 0
      else if bits = 0xFD then 1
      else if bits = 0xFB then 2
      else if bits = 0xF7 then 3
      else 8)"

section \<open>The sequence generator\<close>

text \<open>
  \<^verbatim>\<open>gen_seq\<close>: \<^verbatim>\<open>seq_len = lengths[level]; seq = random();\<close>. The table has four entries;
  an index outside it is a read outside the array, which C leaves undefined.
\<close>

definition gen_seq :: "int \<Rightarrow> unit prog" where
  "gen_seq level s =
     (if 0 \<le> level \<and> level < int (length lengths)
      then (let s1 = s\<lparr>seq_len := lengths ! nat level\<rparr>;
                (v, s2) = random s1
            in (Returned (), s2\<lparr>seq := v\<rparr>))
      else (Undefined, s))"

section \<open>Waiting for keys\<close>

text \<open>\<^verbatim>\<open>while_key\<close>: \<^verbatim>\<open>do { keyboard = PIND; } while(keyboard == key);\<close>\<close>

function while_key :: "u8 \<Rightarrow> unit prog" where
  "while_key key s =
     bnd sample_keyboard
       (\<lambda>_ s1. if keyboard s1 = key then while_key key s1 else (Returned (), s1)) s"
  by pat_completeness auto
termination
  by (relation "measure (\<lambda>(key, s). length (PIND_input s))")
     (auto dest: sample_keyboard_shorter)

declare while_key.simps [simp del]

text \<open>\<^verbatim>\<open>while_key_not\<close>: \<^verbatim>\<open>do { keyboard = PIND; } while(keyboard != key);\<close>\<close>

function while_key_not :: "u8 \<Rightarrow> unit prog" where
  "while_key_not key s =
     bnd sample_keyboard
       (\<lambda>_ s1. if keyboard s1 \<noteq> key then while_key_not key s1 else (Returned (), s1)) s"
  by pat_completeness auto
termination
  by (relation "measure (\<lambda>(key, s). length (PIND_input s))")
     (auto dest: sample_keyboard_shorter)

declare while_key_not.simps [simp del]

text \<open>
  \<^verbatim>\<open>wait_for_key\<close>. Its middle loop, entered with the counter at \<open>count\<close>:
  \<^verbatim>\<open>do { if(count > KEYTIMEOUT) break; ++count; keyboard = PIND; } while(keyboard == 0b11111111);\<close>
  The counter is an \<^verbatim>\<open>unsigned long\<close> that stops at \<open>KEYTIMEOUT + 1\<close>, far below \<open>2 ^ 32\<close>.
\<close>

function wait_for_key_loop :: "nat \<Rightarrow> unit prog" where
  "wait_for_key_loop count s =
     (if count > KEYTIMEOUT then (Returned (), s)
      else bnd sample_keyboard
             (\<lambda>_ s1. if keyboard s1 = 0xFF then wait_for_key_loop (count + 1) s1
                      else (Returned (), s1)) s)"
  by pat_completeness auto
termination
  by (relation "measure (\<lambda>(count, s). Suc KEYTIMEOUT - count)") auto

declare wait_for_key_loop.simps [simp del]

definition wait_for_key :: "u8 \<Rightarrow> int prog" where
  "wait_for_key key s =
     bnd (while_key_not 0xFF)
       (\<lambda>_. bnd (wait_for_key_loop 0)
          (\<lambda>_ s2.
             let s3 = set_PORTB (keyboard s2) s2;
                 error = (if keyboard s3 \<noteq> key then 1 else 0)
             in bnd (while_key_not 0xFF)
                  (\<lambda>_ s4. (Returned error, set_PORTB (keyboard s4) s4)) s3)) s"

section \<open>What every routine leaves alone\<close>

text \<open>
  \<open>frame s t\<close>: from \<open>s\<close> to \<open>t\<close> samples were only taken from the front of the input,
  writes were only added at the end of the output, and the sequence, its length and the
  random source are the same. Every routine but \<^verbatim>\<open>gen_seq\<close> (and its callers) stays within it,
  whatever its result; the later loops need this to be defined at all.
\<close>

definition frame :: "state \<Rightarrow> state \<Rightarrow> bool" where
  "frame s t \<longleftrightarrow>
     suffix (PIND_input t) (PIND_input s) \<and> prefix (PORTB_trace s) (PORTB_trace t) \<and>
     rand_src t = rand_src s \<and> seq t = seq s \<and> seq_len t = seq_len s"

lemma frame_refl [simp]: "frame s s"
  by (simp add: frame_def)

lemma frame_trans: "frame s t \<Longrightarrow> frame t u \<Longrightarrow> frame s u"
  unfolding frame_def by (metis prefix_order.order_trans suffix_order.order_trans)

lemma frame_length: "frame s t \<Longrightarrow> length (PIND_input t) \<le> length (PIND_input s)"
  by (simp add: frame_def suffix_length_le)

lemma frame_set_PORTB [simp]: "frame s (set_PORTB v s)"
  by (simp add: frame_def set_PORTB_def)

lemma frame_set_PORTB_trans: "frame s t \<Longrightarrow> frame s (set_PORTB v t)"
  by (erule frame_trans) simp

lemma frame_random [simp]: "frame s (snd (random s))"
  by (simp add: frame_def random_def)

lemma frame_sleep [simp]: "frame s (s\<lparr>sleep := v\<rparr>)"
  by (simp add: frame_def)

lemma sample_keyboard_frame: "sample_keyboard s = (r, t) \<Longrightarrow> frame s t"
  by (auto simp: sample_keyboard_def frame_def suffix_Cons split: list.splits)

lemma bnd_frame:
  assumes "bnd f g s = (r, t)"
    and "\<And>r1 s1. f s = (r1, s1) \<Longrightarrow> frame s s1"
    and "\<And>v s1. f s = (Returned v, s1) \<Longrightarrow> g v s1 = (r, t) \<Longrightarrow> frame s1 t"
  shows "frame s t"
  using assms by (auto simp: bnd_def split: prod.splits result.splits intro: frame_trans)

lemma bnd_shorter:
  assumes "bnd f g s = (r, t)"
    and "\<And>v s1. f s = (Returned v, s1) \<Longrightarrow> length (PIND_input s1) < length (PIND_input s)"
    and "\<And>v s1. f s = (Returned v, s1) \<Longrightarrow> g v s1 = (r, t) \<Longrightarrow> frame s1 t"
    and "r = Returned w"
  shows "length (PIND_input t) < length (PIND_input s)"
  using assms
  by (fastforce simp: bnd_def split: prod.splits result.splits dest: frame_length)

lemma delay_loop_frame: "delay_loop b i s = (r, t) \<Longrightarrow> frame s t"
proof (induction b i s arbitrary: r t rule: delay_loop.induct)
  case (1 b i s)
  show ?case
  proof (cases "i < DELAYTIME")
    case True
    with "1.prems" have "bnd sample_keyboard
          (\<lambda>_ s1. if b \<noteq> 0 \<and> keyboard s1 \<noteq> 0xFF
             then (Returned 1, set_PORTB (keyboard s1) s1)
             else delay_loop b (i + 1) (snd (random s1))) s = (r, t)"
      by (simp add: delay_loop.simps [of b i s])
    then show ?thesis
      by (rule bnd_frame)
        (auto intro: sample_keyboard_frame frame_trans [OF frame_random] "1.IH" [OF True]
          split: if_splits)
  next
    case False
    with "1.prems" show ?thesis by (simp add: delay_loop.simps [of b i s])
  qed
qed

lemma delay_frame: "delay b s = (r, t) \<Longrightarrow> frame s t"
  unfolding delay_def by (rule delay_loop_frame)

lemma delay_shorter:
  assumes "delay b s = (Returned v, t)"
  shows "length (PIND_input t) < length (PIND_input s)"
proof -
  from assms have "bnd sample_keyboard
          (\<lambda>_ s1. if b \<noteq> 0 \<and> keyboard s1 \<noteq> 0xFF
             then (Returned 1, set_PORTB (keyboard s1) s1)
             else delay_loop b (0 + 1) (snd (random s1))) s = (Returned v, t)"
    by (simp add: delay_def delay_loop.simps [of b 0 s] DELAYTIME_def)
  then show ?thesis
    by (rule bnd_shorter)
      (auto intro: sample_keyboard_shorter frame_trans [OF frame_random] delay_loop_frame
        split: if_splits)
qed

lemma delay_long_loop_frame: "delay_long_loop c b i s = (r, t) \<Longrightarrow> frame s t"
proof (induction c b i s arbitrary: r t rule: delay_long_loop.induct)
  case (1 c b i s)
  show ?case
  proof (cases "i < c")
    case True
    with "1.prems" have "bnd (delay b)
          (\<lambda>r s1. if r \<noteq> 0 then (Returned 1, s1)
                   else delay_long_loop c b (i + 1) s1) s = (r, t)"
      by (simp add: delay_long_loop.simps [of c b i s])
    then show ?thesis
      by (rule bnd_frame) (auto intro: delay_frame "1.IH" [OF True] split: if_splits)
  next
    case False
    with "1.prems" show ?thesis by (simp add: delay_long_loop.simps [of c b i s])
  qed
qed

lemma delay_long_frame: "delay_long c b s = (r, t) \<Longrightarrow> frame s t"
  unfolding delay_long_def by (rule delay_long_loop_frame)

lemma while_key_frame: "while_key key s = (r, t) \<Longrightarrow> frame s t"
proof (induction key s arbitrary: r t rule: while_key.induct)
  case (1 key s)
  from "1.prems" have "bnd sample_keyboard
       (\<lambda>_ s1. if keyboard s1 = key then while_key key s1 else (Returned (), s1)) s = (r, t)"
    by (simp add: while_key.simps [of key s])
  then show ?case
    by (rule bnd_frame) (auto intro: sample_keyboard_frame "1.IH" split: if_splits)
qed

lemma while_key_not_frame: "while_key_not key s = (r, t) \<Longrightarrow> frame s t"
proof (induction key s arbitrary: r t rule: while_key_not.induct)
  case (1 key s)
  from "1.prems" have "bnd sample_keyboard
       (\<lambda>_ s1. if keyboard s1 \<noteq> key then while_key_not key s1 else (Returned (), s1)) s = (r, t)"
    by (simp add: while_key_not.simps [of key s])
  then show ?case
    by (rule bnd_frame) (auto intro: sample_keyboard_frame "1.IH" split: if_splits)
qed

lemma wait_for_key_loop_frame: "wait_for_key_loop count s = (r, t) \<Longrightarrow> frame s t"
proof (induction count s arbitrary: r t rule: wait_for_key_loop.induct)
  case (1 count s)
  show ?case
  proof (cases "count > KEYTIMEOUT")
    case True
    with "1.prems" show ?thesis by (simp add: wait_for_key_loop.simps [of count s])
  next
    case False
    with "1.prems" have "bnd sample_keyboard
             (\<lambda>_ s1. if keyboard s1 = 0xFF then wait_for_key_loop (count + 1) s1
                      else (Returned (), s1)) s = (r, t)"
      by (simp add: wait_for_key_loop.simps [of count s])
    then show ?thesis
      by (rule bnd_frame) (auto intro: sample_keyboard_frame "1.IH" [OF False] split: if_splits)
  qed
qed

lemma wait_for_key_frame:
  assumes "wait_for_key key s = (r, t)"
  shows "frame s t"
  using assms unfolding wait_for_key_def
  apply (rule bnd_frame)
   apply (erule while_key_not_frame)
  apply (erule bnd_frame)
   apply (erule wait_for_key_loop_frame)
  apply (simp add: Let_def)
  apply (rule frame_trans [OF frame_set_PORTB])
  apply (erule bnd_frame)
   apply (erule while_key_not_frame)
  apply auto
  done

section \<open>Standby and key patterns\<close>

text \<open>
  \<^verbatim>\<open>standby\<close>. Its inner loop \<^verbatim>\<open>for(int i = 0; i < 4; ++i)\<close>, entered at \<open>i\<close> with the pattern
  \<open>leds\<close>; the result \<open>True\<close> says that the \<^verbatim>\<open>return 0\<close> inside the loop was taken.
  \<^verbatim>\<open>leds <<= 1; leds |= 1;\<close> works on an \<^verbatim>\<open>unsigned char\<close>.
\<close>

function standby_leds :: "u8 \<Rightarrow> int \<Rightarrow> bool prog" where
  "standby_leds leds i s =
     (if i < 4 then
        bnd (delay 1)
          (\<lambda>r s2. if r \<noteq> 0 then (Returned True, set_PORTB 0xFF s2)
                   else standby_leds (push_bit 1 leds OR 1) (i + 1) s2)
          (if sleep s = 0 then set_PORTB leds s else s)
      else (Returned False, s))"
  by pat_completeness auto
termination
  by (relation "measure (\<lambda>(leds, i, s). nat (4 - i))") auto

declare standby_leds.simps [simp del]

text \<open>The outer loop \<^verbatim>\<open>for(int count = 0; count < STANDBYTIMEOUT; ++count)\<close>, entered at \<open>count\<close>.\<close>

function standby_count :: "int \<Rightarrow> int prog" where
  "standby_count count s =
     (if count < STANDBYTIMEOUT then
        bnd (standby_leds 0xFE 0)
          (\<lambda>interrupted s1. if interrupted then (Returned 0, s1)
                             else standby_count (count + 1) s1) s
      else (Returned 1, set_PORTB 0xFF s))"
  by pat_completeness auto
termination
  by (relation "measure (\<lambda>(count, s). nat (STANDBYTIMEOUT - count))") auto

declare standby_count.simps [simp del]

definition standby :: "int prog" where
  "standby s = standby_count 0 (set_PORTB 0xFF s)"

lemma standby_leds_frame: "standby_leds leds i s = (r, t) \<Longrightarrow> frame s t"
proof (induction leds i s arbitrary: r t rule: standby_leds.induct)
  case (1 leds i s)
  show ?case
  proof (cases "i < 4")
    case True
    define s0 where "s0 = (if sleep s = 0 then set_PORTB leds s else s)"
    have s0: "frame s s0" by (simp add: s0_def)
    from True "1.prems" have "bnd (delay 1)
          (\<lambda>r s2. if r \<noteq> 0 then (Returned True, set_PORTB 0xFF s2)
                   else standby_leds (push_bit 1 leds OR 1) (i + 1) s2) s0 = (r, t)"
      by (simp add: standby_leds.simps [of leds i s] s0_def)
    then have "frame s0 t"
      by (rule bnd_frame)
        (auto intro: delay_frame "1.IH" [OF True, folded s0_def] split: if_splits)
    with s0 show ?thesis by (rule frame_trans)
  next
    case False
    with "1.prems" show ?thesis by (simp add: standby_leds.simps [of leds i s])
  qed
qed

lemma standby_leds_shorter:
  assumes "standby_leds leds 0 s = (Returned v, t)"
  shows "length (PIND_input t) < length (PIND_input s)"
proof -
  define s0 where "s0 = (if sleep s = 0 then set_PORTB leds s else s)"
  have s0: "PIND_input s0 = PIND_input s" by (simp add: s0_def set_PORTB_def)
  from assms have "bnd (delay 1)
          (\<lambda>r s2. if r \<noteq> 0 then (Returned True, set_PORTB 0xFF s2)
                   else standby_leds (push_bit 1 leds OR 1) (0 + 1) s2) s0 = (Returned v, t)"
    by (simp add: standby_leds.simps [of leds 0 s] s0_def)
  then have "length (PIND_input t) < length (PIND_input s0)"
    by (rule bnd_shorter) (auto intro: delay_shorter standby_leds_frame split: if_splits)
  with s0 show ?thesis by simp
qed

lemma standby_count_frame: "standby_count count s = (r, t) \<Longrightarrow> frame s t"
proof (induction count s arbitrary: r t rule: standby_count.induct)
  case (1 count s)
  show ?case
  proof (cases "count < STANDBYTIMEOUT")
    case True
    with "1.prems" have "bnd (standby_leds 0xFE 0)
          (\<lambda>interrupted s1. if interrupted then (Returned 0, s1)
                             else standby_count (count + 1) s1) s = (r, t)"
      by (simp add: standby_count.simps [of count s])
    then show ?thesis
      by (rule bnd_frame) (auto intro: standby_leds_frame "1.IH" [OF True] split: if_splits)
  next
    case False
    with "1.prems" show ?thesis by (auto simp: standby_count.simps [of count s])
  qed
qed

lemma standby_frame: "standby s = (r, t) \<Longrightarrow> frame s t"
  unfolding standby_def by (rule frame_trans [OF frame_set_PORTB]) (rule standby_count_frame)

lemma standby_shorter:
  assumes "standby s = (Returned v, t)"
  shows "length (PIND_input t) < length (PIND_input s)"
proof -
  from assms have "bnd (standby_leds 0xFE 0)
          (\<lambda>interrupted s1. if interrupted then (Returned 0, s1)
                             else standby_count (0 + 1) s1) (set_PORTB 0xFF s) = (Returned v, t)"
    by (simp add: standby_def standby_count.simps [of 0] STANDBYTIMEOUT_def)
  then have "length (PIND_input t) < length (PIND_input (set_PORTB 0xFF s))"
    by (rule bnd_shorter) (auto intro: standby_leds_shorter standby_count_frame split: if_splits)
  then show ?thesis by (simp add: set_PORTB_def)
qed

text \<open>
  \<^verbatim>\<open>while_keypattern_not\<close>: \<^verbatim>\<open>~keyboard & keypattern & (unsigned char)0xFF\<close> is computed in
  \<^verbatim>\<open>int\<close> (16 bits) after the usual promotion of its operands; the loop goes on while it is 0.
\<close>

function while_keypattern_not :: "u8 \<Rightarrow> unit prog" where
  "while_keypattern_not keypattern s =
     bnd standby
       (\<lambda>timeout s1.
          if timeout \<noteq> 0 then (Returned (), s1\<lparr>sleep := 1\<rparr>)
          else if NOT (ucast (keyboard s1) :: u16) AND ucast keypattern AND 0xFF = 0
          then while_keypattern_not keypattern s1
          else (Returned (), s1\<lparr>sleep := 0\<rparr>)) s"
  by pat_completeness auto
termination
  by (relation "measure (\<lambda>(keypattern, s). length (PIND_input s))")
     (auto dest: standby_shorter)

declare while_keypattern_not.simps [simp del]

lemma while_keypattern_not_frame: "while_keypattern_not kp s = (r, t) \<Longrightarrow> frame s t"
proof (induction kp s arbitrary: r t rule: while_keypattern_not.induct)
  case (1 kp s)
  from "1.prems" have "bnd standby
       (\<lambda>timeout s1.
          if timeout \<noteq> 0 then (Returned (), s1\<lparr>sleep := 1\<rparr>)
          else if NOT (ucast (keyboard s1) :: u16) AND ucast kp AND 0xFF = 0
          then while_keypattern_not kp s1
          else (Returned (), s1\<lparr>sleep := 0\<rparr>)) s = (r, t)"
    by (simp add: while_keypattern_not.simps [of kp s])
  then show ?case
    by (rule bnd_frame) (auto intro: standby_frame "1.IH" split: if_splits)
qed

lemma while_keypattern_not_shorter:
  assumes "while_keypattern_not kp s = (Returned v, t)"
  shows "length (PIND_input t) < length (PIND_input s)"
proof -
  from assms have "bnd standby
       (\<lambda>timeout s1.
          if timeout \<noteq> 0 then (Returned (), s1\<lparr>sleep := 1\<rparr>)
          else if NOT (ucast (keyboard s1) :: u16) AND ucast kp AND 0xFF = 0
          then while_keypattern_not kp s1
          else (Returned (), s1\<lparr>sleep := 0\<rparr>)) s = (Returned v, t)"
    by (simp add: while_keypattern_not.simps [of kp s])
  then show ?thesis
    by (rule bnd_shorter)
      (auto intro: standby_shorter while_keypattern_not_frame split: if_splits)
qed

section \<open>Selecting mode and level\<close>

text \<open>
  \<^verbatim>\<open>init\<close>: wait for SW0 or SW1, mirror the keys, wait for their release; wait for one of
  SW0 to SW3, mirror the keys, decode the level, wait for the release, mirror again and
  generate the sequence. Either wait can end with \<^verbatim>\<open>sleep\<close> set, and \<^verbatim>\<open>init\<close> returns.
\<close>

definition init :: "unit prog" where
  "init s =
     bnd (while_keypattern_not 0x03)
       (\<lambda>_ s1.
          if sleep s1 \<noteq> 0 then (Returned (), s1)
          else
            bnd (while_key_not 0xFF)
              (\<lambda>_. bnd (while_keypattern_not 0x0F)
                 (\<lambda>_ s3.
                    if sleep s3 \<noteq> 0 then (Returned (), s3)
                    else
                      (let s4 = set_PORTB (keyboard s3) s3;
                           level = bits2number (keyboard s4)
                       in bnd (while_key_not 0xFF)
                            (\<lambda>_ s5. gen_seq level (set_PORTB (keyboard s5) s5)) s4)))
              (set_PORTB (keyboard s1) s1)) s"

section \<open>Playing a game\<close>

text \<open>
  The symbol at place \<open>j\<close> of the sequence: \<^verbatim>\<open>seq >> (j<<1) & 0b11\<close>, an \<^verbatim>\<open>unsigned long\<close>
  converted to \<^verbatim>\<open>int\<close>. The shift by \<open>2 * j\<close> is defined for \<open>0 \<le> j < 16\<close>.
\<close>

definition led_at :: "u32 \<Rightarrow> int \<Rightarrow> int option" where
  "led_at sq j =
     (if 0 \<le> j \<and> j < 16 then Some (uint (drop_bit (nat (2 * j)) sq AND 3)) else None)"

text \<open>The key pattern that \<^verbatim>\<open>number2bits(led)\<close> gives for the symbol at place \<open>j\<close>.\<close>

definition key_at :: "u32 \<Rightarrow> int \<Rightarrow> u8 option" where
  "key_at sq j = (case led_at sq j of None \<Rightarrow> None | Some led \<Rightarrow> number2bits led)"

text \<open>
  The first inner loop of \<^verbatim>\<open>play\<close>, \<^verbatim>\<open>for(int j = 0; j < i; ++j)\<close> entered at \<open>j\<close>: it shows
  the symbols.
\<close>

function play_show :: "int \<Rightarrow> int \<Rightarrow> unit prog" where
  "play_show i j s =
     (if j < i then
        (case key_at (seq s) j of
           None \<Rightarrow> (Undefined, s)
         | Some bits \<Rightarrow>
             bnd (delay_long 4 0)
               (\<lambda>_ s2. bnd (delay_long 4 0) (\<lambda>_ s4. play_show i (j + 1) s4)
                          (set_PORTB 0xFF s2))
               (set_PORTB bits s))
      else (Returned (), s))"
  by pat_completeness auto
termination
  by (relation "measure (\<lambda>(i, j, s). nat (i - j))") auto

declare play_show.simps [simp del]

text \<open>
  The second inner loop, \<^verbatim>\<open>for(int j = 0; j < i; ++j)\<close> entered at \<open>j\<close>: it checks the keys.
  The result \<open>True\<close> says that the \<^verbatim>\<open>return 0\<close> inside the loop was taken.
\<close>

function play_check :: "int \<Rightarrow> int \<Rightarrow> bool prog" where
  "play_check i j s =
     (if j < i then
        (case key_at (seq s) j of
           None \<Rightarrow> (Undefined, s)
         | Some bits \<Rightarrow>
             bnd (wait_for_key bits)
               (\<lambda>error s1. if error \<noteq> 0 then (Returned True, s1)
                           else play_check i (j + 1) s1) s)
      else (Returned False, s))"
  by pat_completeness auto
termination
  by (relation "measure (\<lambda>(i, j, s). nat (i - j))") auto

declare play_check.simps [simp del]

lemma play_show_frame: "play_show i j s = (r, t) \<Longrightarrow> frame s t"
proof (induction i j s arbitrary: r t rule: play_show.induct)
  case (1 i j s)
  show ?case
  proof (cases "j < i")
    case True
    show ?thesis
    proof (cases "key_at (seq s) j")
      case None
      with True "1.prems" show ?thesis by (simp add: play_show.simps [of i j s])
    next
      case (Some bits)
      with True "1.prems" have "bnd (delay_long 4 0)
               (\<lambda>_ s2. bnd (delay_long 4 0) (\<lambda>_ s4. play_show i (j + 1) s4)
                          (set_PORTB 0xFF s2))
               (set_PORTB bits s) = (r, t)"
        by (simp add: play_show.simps [of i j s])
      then have "frame (set_PORTB bits s) t"
        apply (rule bnd_frame)
         apply (erule delay_long_frame)
        apply (rule frame_trans [OF frame_set_PORTB])
        apply (erule bnd_frame)
         apply (erule delay_long_frame)
        apply (erule "1.IH" [OF True Some])
          apply assumption+
        done
      then show ?thesis by (rule frame_trans [OF frame_set_PORTB])
    qed
  next
    case False
    with "1.prems" show ?thesis by (simp add: play_show.simps [of i j s])
  qed
qed

lemma play_check_frame: "play_check i j s = (r, t) \<Longrightarrow> frame s t"
proof (induction i j s arbitrary: r t rule: play_check.induct)
  case (1 i j s)
  show ?case
  proof (cases "j < i")
    case True
    show ?thesis
    proof (cases "key_at (seq s) j")
      case None
      with True "1.prems" show ?thesis by (simp add: play_check.simps [of i j s])
    next
      case (Some bits)
      with True "1.prems" have "bnd (wait_for_key bits)
               (\<lambda>error s1. if error \<noteq> 0 then (Returned True, s1)
                           else play_check i (j + 1) s1) s = (r, t)"
        by (simp add: play_check.simps [of i j s])
      then show ?thesis
        by (rule bnd_frame)
          (auto intro: wait_for_key_frame "1.IH" [OF True Some] split: if_splits)
    qed
  next
    case False
    with "1.prems" show ?thesis by (simp add: play_check.simps [of i j s])
  qed
qed

text \<open>
  The outer loop of \<^verbatim>\<open>play\<close>, \<^verbatim>\<open>for(int i = 1; i <= seq_len; ++i)\<close> entered at \<open>i\<close>. (With a
  length of 16 or more the loop reaches an undefined shift before \<open>i\<close> could leave the
  range of \<^verbatim>\<open>int\<close>.)
\<close>

function play_rounds :: "int \<Rightarrow> int prog" where
  "play_rounds i s =
     (if i \<le> seq_len s then
        bnd (delay_long 12 0)
          (\<lambda>_. bnd (play_show i 0)
             (\<lambda>_. bnd (play_check i 0)
                (\<lambda>failed s3. if failed then (Returned 0, s3) else play_rounds (i + 1) s3))) s
      else (Returned 1, s))"
  by pat_completeness auto
termination
proof (relation "measure (\<lambda>(i, s). nat (seq_len s + 1 - i))", goal_cases)
  case 1
  show ?case by simp
next
  case (2 i s v s1 v1 s2 failed s3)
  then have "frame s s1" "frame s1 s2" "frame s2 s3"
    by (auto intro: delay_long_frame play_show_frame play_check_frame)
  then have "seq_len s3 = seq_len s"
    by (simp add: frame_def)
  with 2 show ?case by simp
qed

declare play_rounds.simps [simp del]

definition play :: "int prog" where
  "play s = play_rounds 1 s"

lemma play_rounds_frame: "play_rounds i s = (r, t) \<Longrightarrow> frame s t"
proof (induction i s arbitrary: r t rule: play_rounds.induct)
  case (1 i s)
  show ?case
  proof (cases "i \<le> seq_len s")
    case True
    with "1.prems" have "bnd (delay_long 12 0)
          (\<lambda>_. bnd (play_show i 0)
             (\<lambda>_. bnd (play_check i 0)
                (\<lambda>failed s3. if failed then (Returned 0, s3) else play_rounds (i + 1) s3))) s
          = (r, t)"
      by (simp add: play_rounds.simps [of i s])
    then show ?thesis
      apply (rule bnd_frame)
       apply (erule delay_long_frame)
      apply (erule bnd_frame)
       apply (erule play_show_frame)
      apply (erule bnd_frame)
       apply (erule play_check_frame)
      apply (auto intro: "1.IH" [OF True] split: if_splits)
      done
  next
    case False
    with "1.prems" show ?thesis by (simp add: play_rounds.simps [of i s])
  qed
qed

lemma play_frame: "play s = (r, t) \<Longrightarrow> frame s t"
  unfolding play_def by (rule play_rounds_frame)

section \<open>Celebrating and mocking\<close>

text \<open>
  Both animations are runs of the two statements \<^verbatim>\<open>PORTB = v; delay(0);\<close>; \<open>steps vs\<close> runs
  them for each \<open>v\<close> of \<open>vs\<close> in turn.
\<close>

fun steps :: "u8 list \<Rightarrow> unit prog" where
  "steps [] s = (Returned (), s)"
| "steps (v # vs) s = bnd (delay 0) (\<lambda>_ s1. steps vs s1) (set_PORTB v s)"

text \<open>\<^verbatim>\<open>celebrate\<close>: the loop \<^verbatim>\<open>for(int i = 0; i < 3; ++i)\<close>, entered at \<open>i\<close>, around 16 steps.\<close>

function celebrate_loop :: "int \<Rightarrow> unit prog" where
  "celebrate_loop i s =
     (if i < 3 then
        bnd (steps [0xFE, 0xFF, 0xFE, 0xFF, 0xFD, 0xFF, 0xFD, 0xFF,
                    0xFB, 0xFF, 0xFB, 0xFF, 0xF7, 0xFF, 0xF7, 0xFF])
          (\<lambda>_ s1. celebrate_loop (i + 1) s1) s
      else (Returned (), s))"
  by pat_completeness auto
termination
  by (relation "measure (\<lambda>(i, s). nat (3 - i))") auto

declare celebrate_loop.simps [simp del]

definition celebrate :: "unit prog" where
  "celebrate s = celebrate_loop 0 s"

text \<open>\<^verbatim>\<open>mock\<close>: the loop \<^verbatim>\<open>for(int i = 0; i < 15; ++i)\<close>, entered at \<open>i\<close>, around 2 steps.\<close>

function mock_loop :: "int \<Rightarrow> unit prog" where
  "mock_loop i s =
     (if i < 15 then
        bnd (steps [0xF0, 0xFF]) (\<lambda>_ s1. mock_loop (i + 1) s1) s
      else (Returned (), s))"
  by pat_completeness auto
termination
  by (relation "measure (\<lambda>(i, s). nat (15 - i))") auto

declare mock_loop.simps [simp del]

definition mock :: "unit prog" where
  "mock s = mock_loop 0 s"

lemma steps_frame: "steps vs s = (r, t) \<Longrightarrow> frame s t"
proof (induction vs arbitrary: s r t)
  case Nil
  then show ?case by simp
next
  case (Cons v vs)
  from Cons.prems have "bnd (delay 0) (\<lambda>_ s1. steps vs s1) (set_PORTB v s) = (r, t)"
    by simp
  then have "frame (set_PORTB v s) t"
    by (rule bnd_frame) (auto intro: delay_frame Cons.IH)
  then show ?case by (rule frame_trans [OF frame_set_PORTB])
qed

lemma celebrate_loop_frame: "celebrate_loop i s = (r, t) \<Longrightarrow> frame s t"
proof (induction i s arbitrary: r t rule: celebrate_loop.induct)
  case (1 i s)
  show ?case
  proof (cases "i < 3")
    case True
    with "1.prems" show ?thesis
      unfolding celebrate_loop.simps [of i s]
      by (auto elim!: bnd_frame intro: steps_frame "1.IH" [OF True])
  next
    case False
    with "1.prems" show ?thesis by (simp add: celebrate_loop.simps [of i s])
  qed
qed

lemma celebrate_frame: "celebrate s = (r, t) \<Longrightarrow> frame s t"
  unfolding celebrate_def by (rule celebrate_loop_frame)

lemma mock_loop_frame: "mock_loop i s = (r, t) \<Longrightarrow> frame s t"
proof (induction i s arbitrary: r t rule: mock_loop.induct)
  case (1 i s)
  show ?case
  proof (cases "i < 15")
    case True
    with "1.prems" show ?thesis
      unfolding mock_loop.simps [of i s]
      by (auto elim!: bnd_frame intro: steps_frame "1.IH" [OF True])
  next
    case False
    with "1.prems" show ?thesis by (simp add: mock_loop.simps [of i s])
  qed
qed

lemma mock_frame: "mock s = (r, t) \<Longrightarrow> frame s t"
  unfolding mock_def by (rule mock_loop_frame)

section \<open>The main loop\<close>

lemma gen_seq_input: "gen_seq level s = (r, t) \<Longrightarrow> PIND_input t = PIND_input s"
  by (auto simp: gen_seq_def random_def Let_def split: if_splits)

lemma init_shorter:
  assumes "init s = (Returned v, t)"
  shows "length (PIND_input t) < length (PIND_input s)"
  using assms unfolding init_def bnd_def Let_def
  by (auto split: prod.splits result.splits if_splits
      dest!: while_keypattern_not_shorter while_key_not_frame [THEN frame_length]
        gen_seq_input simp: set_PORTB_def)

text \<open>
  The loop \<^verbatim>\<open>for(;;)\<close> of \<^verbatim>\<open>main\<close>. It has no exit: on a finite list of samples it ends
  \<open>Starved\<close> (or \<open>Undefined\<close>), with the state reached by then.
\<close>

function main_loop :: "int prog" where
  "main_loop s =
     bnd init
       (\<lambda>_ s1.
          if sleep s1 \<noteq> 0 then main_loop s1
          else
            bnd play
              (\<lambda>win s2.
                 bnd (if win \<noteq> 0 then celebrate else mock)
                   (\<lambda>_ s3. bnd (while_key_not 0xFF) (\<lambda>_ s4. main_loop s4) s3) s2) s1) s"
  by pat_completeness auto
termination
proof (relation "measure (\<lambda>s. length (PIND_input s))", goal_cases)
  case 1
  show ?case by simp
next
  case (2 s v s1)
  then show ?case by (auto dest: init_shorter)
next
  case (3 s v s1 win s2 u s3 w s4)
  then have "length (PIND_input s1) < length (PIND_input s)"
    and "frame s1 s2" and "frame s2 s3" and "frame s3 s4"
    by (auto dest: init_shorter play_frame celebrate_frame mock_frame while_key_not_frame
        split: if_splits)
  then show ?case by (auto dest!: frame_length)
qed

declare main_loop.simps [simp del]

text \<open>
  \<^verbatim>\<open>main\<close>: all LEDs off, wait for a first key, then the loop. The globals start as C
  initialises them: \<^verbatim>\<open>sleep\<close> is 1, the others 0.
\<close>

definition main :: "int prog" where
  "main s = bnd (while_key 0xFF) (\<lambda>_ s1. main_loop s1) (set_PORTB 0xFF s)"

definition boot :: "u8 list \<Rightarrow> (nat \<Rightarrow> u32) \<Rightarrow> state" where
  "boot samples src =
     \<lparr>sleep = 1, keyboard = 0, seq = 0, seq_len = 0, PORTB_trace = [],
      PIND_input = samples, rand_src = src, rand_calls = 0\<rparr>"

text \<open>
  In the loop of \<^verbatim>\<open>main\<close>: \<^verbatim>\<open>int win = play(); if(win) celebrate(); else mock();\<close>
\<close>

definition play_and_feedback :: "unit prog" where
  "play_and_feedback s = bnd play (\<lambda>win s2. (if win \<noteq> 0 then celebrate else mock) s2) s"

section \<open>Notions for stating the properties\<close>

text \<open>
  None of what follows is in the source: these are the states, traces and players that the
  properties below speak about.
\<close>

text \<open>
  \<open>idle n s\<close> is the state after \<open>n\<close> turns of the delay loop in which no return was
  taken: \<open>n\<close> samples went into \<^verbatim>\<open>keyboard\<close> one after the other and \<^verbatim>\<open>random()\<close> was
  called \<open>n\<close> times. Nothing else differs from \<open>s\<close>.
\<close>

definition idle :: "nat \<Rightarrow> state \<Rightarrow> state" where
  "idle n s =
     s\<lparr>keyboard := (if n = 0 then keyboard s else PIND_input s ! (n - 1)),
       PIND_input := drop n (PIND_input s),
       rand_calls := rand_calls s + n\<rparr>"

text \<open>
  \<open>shown ws n s\<close> is the state after the writes \<open>ws\<close> to the port and \<open>n\<close> turns of delay
  loops without a return, in any order.
\<close>

definition shown :: "u8 list \<Rightarrow> nat \<Rightarrow> state \<Rightarrow> state" where
  "shown ws n s = (idle n s)\<lparr>PORTB_trace := PORTB_trace s @ ws\<rparr>"

text \<open>
  A byte written to \<^verbatim>\<open>PORTB\<close> lights the LEDs whose bits are 0 (the source switches all
  LEDs off with \<^verbatim>\<open>0xFF\<close>); \<open>lit v\<close> lists them.
\<close>

definition lit :: "u8 \<Rightarrow> nat list" where
  "lit v = filter (\<lambda>k. \<not> bit v k) [0..<8]"

text \<open>
  The bytes that the program writes as constants, and \<open>pool s\<close>: all the bytes that are in
  the output so far, in \<^verbatim>\<open>keyboard\<close>, or still to come as samples, together with those
  constants. \<open>within s t\<close> says that \<open>t\<close> holds no byte from outside the pool of \<open>s\<close>.
\<close>

definition patterns :: "u8 set" where
  "patterns = {0xFF, 0xFE, 0xFD, 0xFB, 0xF7, 0xF0}"

definition pool :: "state \<Rightarrow> u8 set" where
  "pool s = set (PORTB_trace s) \<union> {keyboard s} \<union> set (PIND_input s) \<union> patterns"

definition within :: "state \<Rightarrow> state \<Rightarrow> bool" where
  "within s t \<longleftrightarrow> pool t \<subseteq> pool s"

text \<open>
  \<open>outcome rt s v ws rest\<close> sums up a run from \<open>s\<close> that ended in \<open>rt\<close>: it returned \<open>v\<close>,
  wrote \<open>ws\<close> to the port, left \<open>rest\<close> of the input unread and kept the sequence and its
  length.
\<close>

definition outcome :: "'a result \<times> state \<Rightarrow> state \<Rightarrow> 'a \<Rightarrow> u8 list \<Rightarrow> u8 list \<Rightarrow> bool" where
  "outcome rt s v ws rest \<longleftrightarrow>
     fst rt = Returned v \<and> PORTB_trace (snd rt) = PORTB_trace s @ ws \<and>
     PIND_input (snd rt) = rest \<and> seq (snd rt) = seq s \<and> seq_len (snd rt) = seq_len s"

text \<open>
  What \<^verbatim>\<open>wait_for_key\<close> reads at one place of the sequence, sample by sample. In
  \<open>Press a b k c\<close> the keys are still down for the samples \<open>a\<close>, then all released for
  \<open>b + 1\<close> samples, then \<open>k\<close> is the first sample with a key down, the samples \<open>c\<close> follow
  while keys stay down (whatever they are), and a sample with all keys released ends the
  touch. In \<open>Silent a c\<close> the keys are still down for \<open>a\<close> and then all released for
  \<open>KEYTIMEOUT + 2\<close> samples (one ends the first wait for release, \<open>KEYTIMEOUT + 1\<close> use up the
  counted loop); whatever is pressed afterwards, \<open>c\<close>, is only waited out. \<open>touch_key\<close> is
  what \<^verbatim>\<open>keyboard\<close> holds when \<^verbatim>\<open>wait_for_key\<close> compares. A touch is well formed when \<open>a\<close> and
  \<open>c\<close> hold no sample with all keys released, \<open>k\<close> has a key down, and \<open>k\<close> comes within the
  budget. Every run of \<^verbatim>\<open>wait_for_key\<close> that returns has read such a touch, and nothing else.
\<close>

datatype touch = Press "u8 list" nat u8 "u8 list" | Silent "u8 list" "u8 list"

fun touch_samples :: "touch \<Rightarrow> u8 list" where
  "touch_samples (Press a b k c) = a @ replicate (Suc b) 0xFF @ k # c @ [0xFF]"
| "touch_samples (Silent a c) = a @ replicate (KEYTIMEOUT + 2) 0xFF @ c @ [0xFF]"

fun touch_key :: "touch \<Rightarrow> u8" where
  "touch_key (Press a b k c) = k"
| "touch_key (Silent a c) = 0xFF"

fun touch_ok :: "touch \<Rightarrow> bool" where
  "touch_ok (Press a b k c) = (0xFF \<notin> set a \<and> b \<le> KEYTIMEOUT \<and> k \<noteq> 0xFF \<and> 0xFF \<notin> set c)"
| "touch_ok (Silent a c) = (0xFF \<notin> set a \<and> 0xFF \<notin> set c)"

text \<open>
  The keys a player presses, as the specification counts them, read off the samples: a
  key is pressed where a sample with a key down follows a sample with all keys released,
  or comes first when no key was down before (\<open>down\<close> is \<open>False\<close>). The list holds the
  pattern of each press in order. The program has no such routine; this is the notion
  that the statements about pressed keys are compared with.
\<close>

fun spec_pressed :: "bool \<Rightarrow> u8 list \<Rightarrow> u8 list" where
  "spec_pressed down [] = []"
| "spec_pressed down (x # xs) =
     (if x = 0xFF then spec_pressed False xs
      else if down then spec_pressed True xs
      else x # spec_pressed True xs)"

text \<open>
  \<open>pattern_at sq j\<close> is the byte that \<^verbatim>\<open>number2bits\<close> gives for the symbol at place \<open>j\<close>,
  \<open>expected sq j i\<close> those of the places from \<open>j\<close> up to \<open>i\<close>, and \<open>showing ks\<close> the writes that
  show each of \<open>ks\<close> and then blank the LEDs.
\<close>

definition pattern_at :: "u32 \<Rightarrow> nat \<Rightarrow> u8" where
  "pattern_at sq j = (case key_at sq (int j) of Some bits \<Rightarrow> bits | None \<Rightarrow> 0xFF)"

definition expected :: "u32 \<Rightarrow> nat \<Rightarrow> nat \<Rightarrow> u8 list" where
  "expected sq j i = map (pattern_at sq) [j..<i]"

definition showing :: "u8 list \<Rightarrow> u8 list" where
  "showing ks = concat (map (\<lambda>k. [k, 0xFF]) ks)"

text \<open>
  \<open>paced d vs\<close>: write each byte of \<open>vs\<close> and stay idle for \<open>d\<close> samples after it. The
  playback loop is such a run with \<open>d\<close> four times \<open>DELAYTIME\<close>.
\<close>

fun paced :: "nat \<Rightarrow> u8 list \<Rightarrow> unit prog" where
  "paced d [] s = (Returned (), s)"
| "paced d (v # vs) s =
     (if d \<le> length (PIND_input s) then paced d vs (idle d (set_PORTB v s))
      else (Starved, idle (length (PIND_input s)) (set_PORTB v s)))"

text \<open>
  A round as the player lives it: the samples that pass during the pause and the playback
  (their values do not matter) and one touch for each place. \<open>good_rounds sq i rs\<close> says
  that \<open>rs\<close> are rounds \<open>i\<close>, \<open>i + 1\<close>, ... in which the samples of the playback are as many
  as the delays read and every touch is well formed and presses the expected pattern.
  \<open>game_trace sq i n\<close> is what the port shows in the rounds from \<open>i\<close> up to \<open>n\<close> of such a
  game: each round the playback, and then the same bytes again, mirrored from the keys.
\<close>

type_synonym round = "u8 list \<times> touch list"

fun good_rounds :: "u32 \<Rightarrow> nat \<Rightarrow> round list \<Rightarrow> bool" where
  "good_rounds sq i [] = True"
| "good_rounds sq i ((pre, ts) # rs) =
     (length pre = (12 + 8 * i) * nat DELAYTIME \<and> list_all touch_ok ts \<and>
      map touch_key ts = expected sq 0 i \<and> good_rounds sq (Suc i) rs)"

definition round_samples :: "round \<Rightarrow> u8 list" where
  "round_samples r = fst r @ concat (map touch_samples (snd r))"

definition game_samples :: "round list \<Rightarrow> u8 list" where
  "game_samples rs = concat (map round_samples rs)"

definition game_trace :: "u32 \<Rightarrow> nat \<Rightarrow> nat \<Rightarrow> u8 list" where
  "game_trace sq i n =
     concat (map (\<lambda>k. showing (expected sq 0 k) @ showing (expected sq 0 k)) [i..<n])"

text \<open>
  The same in two parts: \<open>fair_rounds i rs\<close> asks of the rounds only that the player gives
  one well-formed touch for each place, and \<open>keys_right sq i rs\<close> that the keys are the
  expected ones.
\<close>

fun fair_rounds :: "nat \<Rightarrow> round list \<Rightarrow> bool" where
  "fair_rounds i [] = True"
| "fair_rounds i ((pre, ts) # rs) =
     (length pre = (12 + 8 * i) * nat DELAYTIME \<and> list_all touch_ok ts \<and> length ts = i \<and>
      fair_rounds (Suc i) rs)"

fun keys_right :: "u32 \<Rightarrow> nat \<Rightarrow> round list \<Rightarrow> bool" where
  "keys_right sq i [] = True"
| "keys_right sq i ((pre, ts) # rs) =
     (map touch_key ts = expected sq 0 i \<and> keys_right sq (Suc i) rs)"

text \<open>
  The example of the specification: level 0 and the symbols 2, 0, 3, 1, 2, which are the
  low bits of 626. \<open>perfect_rounds sq i n\<close> is a player who leaves the keys alone during
  each playback and then presses what was shown, in the rounds from \<open>i\<close> up to \<open>n\<close>.
\<close>

definition demo :: "u8 list \<Rightarrow> state" where
  "demo samples =
     \<lparr>sleep = 0, keyboard = 0xFF, seq = 626, seq_len = 5, PORTB_trace = [],
      PIND_input = samples, rand_src = (\<lambda>n. 626), rand_calls = 1\<rparr>"

definition perfect_rounds :: "u32 \<Rightarrow> nat \<Rightarrow> nat \<Rightarrow> round list" where
  "perfect_rounds sq i n =
     map (\<lambda>k. (replicate ((12 + 8 * k) * nat DELAYTIME) 0xFF,
               map (\<lambda>k. Press [] 0 k []) (expected sq 0 k))) [i..<n]"

section \<open>Delays that cannot be interrupted\<close>

lemma idle_0 [simp]: "idle 0 s = s"
  by (simp add: idle_def)

lemma idle_Suc:
  "PIND_input s = x # xs \<Longrightarrow>
   idle (Suc n) s = idle n (snd (random (s\<lparr>keyboard := x, PIND_input := xs\<rparr>)))"
  by (cases n) (simp_all add: idle_def random_def)

lemma idle_idle:
  "n \<le> length (PIND_input s) \<Longrightarrow> idle m (idle n s) = idle (n + m) s"
  by (cases m; cases n) (simp_all add: idle_def add.commute)

lemma idle_fields [simp]:
  "PORTB_trace (idle n s) = PORTB_trace s" "sleep (idle n s) = sleep s"
  "seq (idle n s) = seq s" "seq_len (idle n s) = seq_len s"
  "rand_src (idle n s) = rand_src s" "PIND_input (idle n s) = drop n (PIND_input s)"
  "rand_calls (idle n s) = rand_calls s + n"
  by (simp_all add: idle_def)

lemma idle_others:
  "idle n s = s\<lparr>keyboard := keyboard (idle n s), PIND_input := PIND_input (idle n s),
                rand_calls := rand_calls (idle n s)\<rparr>"
  by (simp add: idle_def)

lemma delay_loop_0:
  "0 \<le> i \<Longrightarrow> i \<le> DELAYTIME \<Longrightarrow>
   delay_loop 0 i s =
     (if nat (DELAYTIME - i) \<le> length (PIND_input s)
      then (Returned 0, idle (nat (DELAYTIME - i)) s)
      else (Starved, idle (length (PIND_input s)) s))"
proof (induction "0::int" i s rule: delay_loop.induct)
  case (1 i s)
  show ?case
  proof (cases "i < DELAYTIME")
    case False
    with 1 show ?thesis by (subst delay_loop.simps) simp
  next
    case True
    show ?thesis
    proof (cases "PIND_input s")
      case Nil
      with True show ?thesis
        by (simp add: delay_loop.simps [of 0 i s] bnd_def sample_keyboard_def)
    next
      case (Cons x xs)
      let ?s1 = "s\<lparr>keyboard := x, PIND_input := xs\<rparr>"
      have sk: "sample_keyboard s = (Returned (), ?s1)"
        by (simp add: sample_keyboard_def Cons)
      have n: "nat (DELAYTIME - i) = Suc (nat (DELAYTIME - (i + 1)))"
        using True by simp
      have "delay_loop 0 i s = delay_loop 0 (i + 1) (snd (random ?s1))"
        using True by (simp add: delay_loop.simps [of 0 i s] bnd_def sk)
      also have "\<dots> = (if nat (DELAYTIME - (i + 1)) \<le> length (PIND_input (snd (random ?s1)))
          then (Returned 0, idle (nat (DELAYTIME - (i + 1))) (snd (random ?s1)))
          else (Starved, idle (length (PIND_input (snd (random ?s1)))) (snd (random ?s1))))"
        using True "1.prems" by (intro "1.hyps" [OF True sk]) simp_all
      also have "\<dots> = (if nat (DELAYTIME - i) \<le> length (PIND_input s)
          then (Returned 0, idle (nat (DELAYTIME - i)) s)
          else (Starved, idle (length (PIND_input s)) s))"
        unfolding n by (simp add: idle_Suc [OF Cons] Cons random_def)
      finally show ?thesis .
    qed
  qed
qed

lemma delay_0:
  "delay 0 s =
     (if nat DELAYTIME \<le> length (PIND_input s)
      then (Returned 0, idle (nat DELAYTIME) s)
      else (Starved, idle (length (PIND_input s)) s))"
  using delay_loop_0 [of 0 s] by (simp add: delay_def DELAYTIME_def)

lemma delay_long_loop_0:
  "delay_long_loop c 0 i s =
     (if nat (c - i) * nat DELAYTIME \<le> length (PIND_input s)
      then (Returned 0, idle (nat (c - i) * nat DELAYTIME) s)
      else (Starved, idle (length (PIND_input s)) s))"
proof (induction c "0::int" i s rule: delay_long_loop.induct)
  case (1 c i s)
  show ?case
  proof (cases "i < c")
    case False
    then show ?thesis by (subst delay_long_loop.simps) simp
  next
    case True
    then have n: "nat (c - i) = Suc (nat (c - (i + 1)))" by simp
    show ?thesis
    proof (cases "nat DELAYTIME \<le> length (PIND_input s)")
      case False
      then have "\<not> nat (c - i) * nat DELAYTIME \<le> length (PIND_input s)"
        unfolding n by simp
      with True False show ?thesis
        by (subst delay_long_loop.simps) (simp add: bnd_def delay_0)
    next
      case enough: True
      have d: "delay 0 s = (Returned 0, idle (nat DELAYTIME) s)"
        using enough by (simp add: delay_0)
      have "delay_long_loop c 0 i s = delay_long_loop c 0 (i + 1) (idle (nat DELAYTIME) s)"
        using True by (subst delay_long_loop.simps) (simp add: bnd_def d)
      also note "1.hyps" [OF True d]
      finally show ?thesis
        using enough unfolding n
        by (auto simp: idle_idle add.commute)
    qed
  qed
qed

lemma delay_long_0:
  "delay_long c 0 s =
     (if nat c * nat DELAYTIME \<le> length (PIND_input s)
      then (Returned 0, idle (nat c * nat DELAYTIME) s)
      else (Starved, idle (length (PIND_input s)) s))"
  using delay_long_loop_0 [of c 0 s] by (simp add: delay_long_def)

text \<open>
  Claim C10. A delay that is not interruptible never reports an interruption and writes
  nothing to the output port, whatever the samples are: \<^verbatim>\<open>delay(0)\<close> returns 0 as soon as
  the input holds the \<open>DELAYTIME\<close> samples it reads, and \<^verbatim>\<open>delay_long(count, 0)\<close> as soon as
  it holds \<open>count\<close> times as many (with fewer samples the call is still waiting, and has
  written nothing either). Of the program's variables only \<^verbatim>\<open>keyboard\<close> has changed; the
  samples read are gone from the input and the random generator has been stepped.
\<close>

theorem delay_not_interruptible:
  "(\<exists>t. delay 0 s =
          (if nat DELAYTIME \<le> length (PIND_input s) then Returned 0 else Starved, t) \<and>
        PORTB_trace t = PORTB_trace s \<and>
        t = s\<lparr>keyboard := keyboard t, PIND_input := PIND_input t,
               rand_calls := rand_calls t\<rparr>) \<and>
   (\<exists>t. delay_long count 0 s =
          (if nat count * nat DELAYTIME \<le> length (PIND_input s) then Returned 0 else Starved,
           t) \<and>
        PORTB_trace t = PORTB_trace s \<and>
        t = s\<lparr>keyboard := keyboard t, PIND_input := PIND_input t,
               rand_calls := rand_calls t\<rparr>)"
proof (intro conjI)
  show "\<exists>t. delay 0 s =
          (if nat DELAYTIME \<le> length (PIND_input s) then Returned 0 else Starved, t) \<and>
        PORTB_trace t = PORTB_trace s \<and>
        t = s\<lparr>keyboard := keyboard t, PIND_input := PIND_input t,
               rand_calls := rand_calls t\<rparr>"
    using idle_others [of "nat DELAYTIME" s] idle_others [of "length (PIND_input s)" s]
    by (simp add: delay_0)
  show "\<exists>t. delay_long count 0 s =
          (if nat count * nat DELAYTIME \<le> length (PIND_input s) then Returned 0 else Starved,
           t) \<and>
        PORTB_trace t = PORTB_trace s \<and>
        t = s\<lparr>keyboard := keyboard t, PIND_input := PIND_input t,
               rand_calls := rand_calls t\<rparr>"
    using idle_others [of "nat count * nat DELAYTIME" s]
      idle_others [of "length (PIND_input s)" s]
    by (simp add: delay_long_0)
qed

text \<open>
  The theorem at work: 300 samples with SW0 held down all the time, then 1200 of them.
\<close>

theorem delay_not_interruptible_witness:
  "fst (delay 0 (boot (replicate 300 0xFE) (\<lambda>n. 0))) = Returned 0 \<and>
   PORTB_trace (snd (delay 0 (boot (replicate 300 0xFE) (\<lambda>n. 0)))) = [] \<and>
   fst (delay_long 4 0 (boot (replicate 1200 0xFE) (\<lambda>n. 0))) = Returned 0 \<and>
   PORTB_trace (snd (delay_long 4 0 (boot (replicate 1200 0xFE) (\<lambda>n. 0)))) = []"
  using delay_not_interruptible [of "boot (replicate 300 0xFE) (\<lambda>n. 0)" 4]
    delay_not_interruptible [of "boot (replicate 1200 0xFE) (\<lambda>n. 0)" 4]
  by (auto simp: boot_def DELAYTIME_def)

section \<open>Symbols, patterns and lengths\<close>

lemma number2bits_values:
  "number2bits 0 = Some 0xFE" "number2bits 1 = Some 0xFD"
  "number2bits 2 = Some 0xFB" "number2bits 3 = Some 0xF7"
  by (simp_all add: number2bits_def)

lemma zero_bits_of_patterns:
  "filter (\<lambda>k. \<not> bit (0xFE :: u8) k) [0..<8] = [0]"
  "filter (\<lambda>k. \<not> bit (0xFD :: u8) k) [0..<8] = [1]"
  "filter (\<lambda>k. \<not> bit (0xFB :: u8) k) [0..<8] = [2]"
  "filter (\<lambda>k. \<not> bit (0xF7 :: u8) k) [0..<8] = [3]"
  by (simp_all add: upt_rec bit_numeral_word_iff)

text \<open>
  Claim C5. For \<open>n\<close> from 0 to 3, \<^verbatim>\<open>number2bits(n)\<close> is the byte whose zero bits, among
  its eight, are the one at place \<open>n\<close>; \<^verbatim>\<open>bits2number\<close> takes that byte back to \<open>n\<close>; and
  \<^verbatim>\<open>bits2number\<close> is 8 on every byte other than the four patterns
  \<open>0xFE\<close>, \<open>0xFD\<close>, \<open>0xFB\<close>, \<open>0xF7\<close>.
\<close>

theorem number2bits_bits2number:
  "(\<forall>n \<in> {0, 1, 2, 3}.
      \<exists>b. number2bits n = Some b \<and> filter (\<lambda>k. \<not> bit b k) [0..<8] = [nat n] \<and>
          b \<in> {0xFE, 0xFD, 0xFB, 0xF7} \<and> bits2number b = n) \<and>
   (\<forall>b. b \<notin> {0xFE, 0xFD, 0xFB, 0xF7} \<longrightarrow> bits2number b = 8)"
proof (intro conjI ballI allI impI)
  fix n :: int
  assume "n \<in> {0, 1, 2, 3}"
  then consider "n = 0" | "n = 1" | "n = 2" | "n = 3"
    by auto
  then show "\<exists>b. number2bits n = Some b \<and> filter (\<lambda>k. \<not> bit b k) [0..<8] = [nat n] \<and>
          b \<in> {0xFE, 0xFD, 0xFB, 0xF7} \<and> bits2number b = n"
  proof cases
    case 1
    then show ?thesis
      using zero_bits_of_patterns(1) by (intro exI [of _ "0xFE"]) (simp add: number2bits_values bits2number_def)
  next
    case 2
    then show ?thesis
      using zero_bits_of_patterns(2) by (intro exI [of _ "0xFD"]) (simp add: number2bits_values bits2number_def)
  next
    case 3
    then show ?thesis
      using zero_bits_of_patterns(3) by (intro exI [of _ "0xFB"]) (simp add: number2bits_values bits2number_def)
  next
    case 4
    then show ?thesis
      using zero_bits_of_patterns(4) by (intro exI [of _ "0xF7"]) (simp add: number2bits_values bits2number_def)
  qed
next
  fix b :: u8
  assume "b \<notin> {0xFE, 0xFD, 0xFB, 0xF7}"
  then show "bits2number b = 8"
    by (simp add: bits2number_def)
qed

theorem number2bits_bits2number_witness:
  "number2bits 2 = Some 0xFB \<and> bits2number 0xFB = 2 \<and> bits2number 0xFC = 8"
proof -
  have "\<exists>b. number2bits 2 = Some b \<and> filter (\<lambda>k. \<not> bit b k) [0..<8] = [nat 2] \<and>
          b \<in> {0xFE, 0xFD, 0xFB, 0xF7} \<and> bits2number b = 2"
    by (rule number2bits_bits2number [THEN conjunct1, THEN bspec]) simp
  then obtain b where b: "number2bits 2 = Some b" "bits2number b = 2"
    by blast
  have v: "number2bits 2 = Some 0xFB"
    by (simp add: number2bits_def)
  with b have "bits2number 0xFB = 2"
    by simp
  moreover have "bits2number 0xFC = 8"
    by (rule number2bits_bits2number [THEN conjunct2, THEN spec, THEN mp]) simp
  ultimately show ?thesis
    using v by simp
qed

text \<open>
  Claim C4. For each level from 0 to 3, \<^verbatim>\<open>gen_seq(level)\<close> returns and has set the length
  of the sequence to the entry of the table 5, 7, 9, 11 at that level; the length is at
  most 15.
\<close>

theorem gen_seq_length:
  "level \<in> {0, 1, 2, 3} \<Longrightarrow>
   \<exists>t. gen_seq level s = (Returned (), t) \<and> seq_len t = [5, 7, 9, 11] ! nat level \<and>
       seq_len t \<le> 15"
  by (auto simp: gen_seq_def lengths_def random_def)

theorem gen_seq_length_witness:
  "\<exists>t. gen_seq 2 (boot [] (\<lambda>n. 0)) = (Returned (), t) \<and> seq_len t = 9 \<and> seq_len t \<le> 15"
  using gen_seq_length [of 2 "boot [] (\<lambda>n. 0)"] by simp

section \<open>The animations\<close>

lemma shown_Nil [simp]: "shown [] n s = idle n s"
  by (simp add: shown_def idle_def)

lemma set_PORTB_shown: "set_PORTB v (shown ws n s) = shown (ws @ [v]) n s"
  by (simp add: shown_def set_PORTB_def idle_def)

lemma idle_shown:
  "n \<le> length (PIND_input s) \<Longrightarrow> idle m (shown ws n s) = shown ws (n + m) s"
  by (cases m; cases n) (simp_all add: shown_def idle_def add.commute)

lemma shown_fields [simp]:
  "PORTB_trace (shown ws n s) = PORTB_trace s @ ws" "sleep (shown ws n s) = sleep s"
  "seq (shown ws n s) = seq s" "seq_len (shown ws n s) = seq_len s"
  "rand_src (shown ws n s) = rand_src s" "PIND_input (shown ws n s) = drop n (PIND_input s)"
  "rand_calls (shown ws n s) = rand_calls s + n"
  by (simp_all add: shown_def idle_def)

lemma shown_shown:
  "n \<le> length (PIND_input s) \<Longrightarrow>
   shown ws' m (shown ws n s) = shown (ws @ ws') (n + m) s"
  by (cases m; cases n) (simp_all add: shown_def idle_def add.commute)

lemma steps_run:
  "steps vs s =
     (if length vs * nat DELAYTIME \<le> length (PIND_input s)
      then (Returned (), shown vs (length vs * nat DELAYTIME) s)
      else (Starved, shown (take (Suc (length (PIND_input s) div nat DELAYTIME)) vs)
                       (length (PIND_input s)) s))"
proof (induction vs arbitrary: s)
  case Nil
  then show ?case by simp
next
  case (Cons v vs)
  let ?s0 = "set_PORTB v s"
  have s0: "?s0 = shown [v] 0 s"
    using set_PORTB_shown [of v "[]" 0 s] by simp
  have len0: "PIND_input ?s0 = PIND_input s"
    by (simp add: set_PORTB_def)
  show ?case
  proof (cases "nat DELAYTIME \<le> length (PIND_input s)")
    case False
    then have "length (PIND_input s) div nat DELAYTIME = 0"
      by simp
    moreover from False have "\<not> length (v # vs) * nat DELAYTIME \<le> length (PIND_input s)"
      by simp
    ultimately show ?thesis
      using False by (simp add: bnd_def delay_0 len0 s0 idle_shown)
  next
    case True
    then have d: "delay 0 ?s0 = (Returned 0, shown [v] (nat DELAYTIME) s)"
      by (simp add: delay_0 len0) (simp add: s0 idle_shown)
    have div: "Suc ((length (PIND_input s) - nat DELAYTIME) div nat DELAYTIME)
        = length (PIND_input s) div nat DELAYTIME"
      using True by (simp add: DELAYTIME_def le_div_geq)
    have "steps (v # vs) s = steps vs (shown [v] (nat DELAYTIME) s)"
      by (simp add: bnd_def d)
    also note Cons.IH
    finally show ?thesis
      using True by (auto simp: shown_shown div add.commute)
  qed
qed

lemma steps_append: "steps (vs @ ws) s = bnd (steps vs) (\<lambda>_ s1. steps ws s1) s"
proof (induction vs arbitrary: s)
  case Nil
  then show ?case by (simp add: bnd_def)
next
  case (Cons v vs)
  then show ?case
    by (simp add: bnd_def split: prod.splits result.splits)
qed

lemma mock_loop_steps:
  "0 \<le> i \<Longrightarrow> mock_loop i s = steps (concat (replicate (nat (15 - i)) [0xF0, 0xFF])) s"
proof (induction i s rule: mock_loop.induct)
  case (1 i s)
  show ?case
  proof (cases "i < 15")
    case False
    then show ?thesis by (subst mock_loop.simps) simp
  next
    case True
    then have n: "nat (15 - i) = Suc (nat (15 - (i + 1)))" by simp
    have "mock_loop i s = bnd (steps [0xF0, 0xFF]) (\<lambda>_ s1. mock_loop (i + 1) s1) s"
      using True by (subst mock_loop.simps) simp
    also have "\<dots> = bnd (steps [0xF0, 0xFF])
        (\<lambda>_ s1. steps (concat (replicate (nat (15 - (i + 1))) [0xF0, 0xFF])) s1) s"
      using "1.prems" by (intro bnd_cong refl "1.IH" [OF True]) simp_all
    also have "\<dots> = steps ([0xF0, 0xFF] @ concat (replicate (nat (15 - (i + 1))) [0xF0, 0xFF])) s"
      by (rule steps_append [symmetric])
    finally show ?thesis unfolding n by simp
  qed
qed

lemma celebrate_loop_steps:
  "0 \<le> i \<Longrightarrow>
   celebrate_loop i s =
     steps (concat (replicate (nat (3 - i))
               [0xFE, 0xFF, 0xFE, 0xFF, 0xFD, 0xFF, 0xFD, 0xFF,
                0xFB, 0xFF, 0xFB, 0xFF, 0xF7, 0xFF, 0xF7, 0xFF])) s"
proof (induction i s rule: celebrate_loop.induct)
  case (1 i s)
  let ?p = "[0xFE, 0xFF, 0xFE, 0xFF, 0xFD, 0xFF, 0xFD, 0xFF,
             0xFB, 0xFF, 0xFB, 0xFF, 0xF7, 0xFF, 0xF7, 0xFF] :: u8 list"
  show ?case
  proof (cases "i < 3")
    case False
    then show ?thesis by (subst celebrate_loop.simps) simp
  next
    case True
    then have n: "nat (3 - i) = Suc (nat (3 - (i + 1)))" by simp
    have "celebrate_loop i s = bnd (steps ?p) (\<lambda>_ s1. celebrate_loop (i + 1) s1) s"
      using True by (subst celebrate_loop.simps) simp
    also have "\<dots> = bnd (steps ?p)
        (\<lambda>_ s1. steps (concat (replicate (nat (3 - (i + 1))) ?p)) s1) s"
      using "1.prems" by (intro bnd_cong refl "1.IH" [OF True]) simp_all
    also have "\<dots> = steps (?p @ concat (replicate (nat (3 - (i + 1))) ?p)) s"
      by (rule steps_append [symmetric])
    finally show ?thesis unfolding n by simp
  qed
qed

lemma lit_values:
  "lit 0xFF = []" "lit 0xF0 = [0, 1, 2, 3]"
  "lit 0xFE = [0]" "lit 0xFD = [1]" "lit 0xFB = [2]" "lit 0xF7 = [3]"
  by (simp_all add: lit_def upt_rec bit_numeral_word_iff)

lemma mock_steps: "mock s = steps (concat (replicate 15 [0xF0, 0xFF])) s"
  using mock_loop_steps [of 0 s] by (simp add: mock_def)

lemma length_concat_replicate: "length (concat (replicate n xs)) = n * length xs"
  by (induction n) simp_all

text \<open>
  Claim C7, as the code has it. \<^verbatim>\<open>mock\<close> runs 15 cycles, each writing \<^verbatim>\<open>0xF0\<close> and then
  \<^verbatim>\<open>0xFF\<close>, every write followed by one \<^verbatim>\<open>delay(0)\<close>; it returns when the input holds the
  \<open>30 * DELAYTIME\<close> samples the delays read, whatever their values, and until then it has
  written a part of the same pattern. \<^verbatim>\<open>0xF0\<close> lights the four LEDs 0 to 3 (not two), and
  \<^verbatim>\<open>0xFF\<close> none.
\<close>

theorem mock_fifteen_cycles:
  "\<exists>t. mock s =
         (if 30 * nat DELAYTIME \<le> length (PIND_input s) then Returned () else Starved, t) \<and>
       prefix (PORTB_trace t) (PORTB_trace s @ concat (replicate 15 [0xF0, 0xFF])) \<and>
       (30 * nat DELAYTIME \<le> length (PIND_input s) \<longrightarrow>
          PORTB_trace t = PORTB_trace s @ concat (replicate 15 [0xF0, 0xFF]) \<and>
          PIND_input t = drop (30 * nat DELAYTIME) (PIND_input s)) \<and>
       lit 0xF0 = [0, 1, 2, 3] \<and> lit 0xFF = []"
  by (simp add: mock_steps steps_run length_concat_replicate lit_values take_is_prefix)

text \<open>
  The claim as it was stated, with two LEDs lit in each cycle, fails on the first write
  of a run on 9000 samples.
\<close>

theorem mock_two_leds_counterexample:
  "\<not> (\<forall>k<15. length (lit (PORTB_trace (snd (mock (boot (replicate 9000 0xFF) (\<lambda>n. 0))))
                            ! (2 * k))) = 2)"
proof
  let ?t = "PORTB_trace (snd (mock (boot (replicate 9000 0xFF) (\<lambda>n. 0))))"
  assume "\<forall>k<15. length (lit (?t ! (2 * k))) = 2"
  then have "0 < (15 :: nat) \<longrightarrow> length (lit (?t ! (2 * 0))) = 2"
    by (rule spec)
  then have "length (lit (?t ! 0)) = 2"
    by simp
  moreover have "?t = concat (replicate 15 [0xF0, 0xFF])"
    by (simp add: mock_steps steps_run length_concat_replicate boot_def DELAYTIME_def)
  moreover have "concat (replicate 15 [0xF0, 0xFF :: u8]) ! 0 = 0xF0"
    by (simp add: eval_nat_numeral)
  ultimately show False
    by (simp add: lit_values)
qed

theorem mock_fifteen_cycles_witness:
  "fst (mock (boot (replicate 9000 0xFE) (\<lambda>n. 0))) = Returned () \<and>
   PORTB_trace (snd (mock (boot (replicate 9000 0xFE) (\<lambda>n. 0))))
     = concat (replicate 15 [0xF0, 0xFF]) \<and>
   PIND_input (snd (mock (boot (replicate 9000 0xFE) (\<lambda>n. 0)))) = []"
  using mock_fifteen_cycles [of "boot (replicate 9000 0xFE) (\<lambda>n. 0)"]
  by (auto simp: boot_def DELAYTIME_def)

section \<open>A level outside the table\<close>

text \<open>
  Claim C6. SW0 is pressed and released to choose the mode; then SW0 and SW1 are pressed
  together (the sample \<^verbatim>\<open>0xFC\<close>) and released. \<^verbatim>\<open>while_keypattern_not(0b00001111)\<close> accepts
  the sample, \<^verbatim>\<open>bits2number\<close> decodes it to 8, and \<^verbatim>\<open>init\<close> calls \<^verbatim>\<open>gen_seq(8)\<close>, which reads
  outside the table of four lengths. The port shows the sample mirrored just before. The
  same happens in \<^verbatim>\<open>main\<close>, after the first key that starts the game.
\<close>

theorem level_out_of_table:
  "bits2number 0xFC = 8 \<and>
   fst (gen_seq 8 s) = Undefined \<and>
   fst (init (boot [0xFE, 0xFF, 0xFC, 0xFF] src)) = Undefined \<and>
   PORTB_trace (snd (init (boot [0xFE, 0xFF, 0xFC, 0xFF] src)))
     = [0xFF, 0xFE, 0xFF, 0xFE, 0xFF, 0xFE, 0xFC, 0xFF, 0xFC, 0xFF] \<and>
   fst (main (boot [0xFE, 0xFE, 0xFF, 0xFC, 0xFF] src)) = Undefined"
proof (intro conjI)
  show "bits2number 0xFC = 8"
    by (simp add: bits2number_def)
  show "fst (gen_seq 8 s) = Undefined"
    by (simp add: gen_seq_def lengths_def)
  show "fst (init (boot [0xFE, 0xFF, 0xFC, 0xFF] src)) = Undefined"
    by code_simp
  show "PORTB_trace (snd (init (boot [0xFE, 0xFF, 0xFC, 0xFF] src)))
     = [0xFF, 0xFE, 0xFF, 0xFE, 0xFF, 0xFE, 0xFC, 0xFF, 0xFC, 0xFF]"
    by code_simp
  show "fst (main (boot [0xFE, 0xFE, 0xFF, 0xFC, 0xFF] src)) = Undefined"
    by code_simp
qed

theorem level_out_of_table_witness:
  "fst (init (boot [0xFE, 0xFF, 0xFC, 0xFF] (\<lambda>n. 0))) = Undefined \<and>
   fst (main (boot [0xFE, 0xFE, 0xFF, 0xFC, 0xFF] (\<lambda>n. 0))) = Undefined"
  using level_out_of_table [of "boot [] (\<lambda>n. 0)" "\<lambda>n. 0"] by simp

section \<open>The sequence during a game\<close>

text \<open>
  Claim C8, as the code has it. For a level from 0 to 3, \<^verbatim>\<open>gen_seq\<close> stores in \<^verbatim>\<open>seq\<close> the
  value that \<^verbatim>\<open>random()\<close> returned, as it is: no bit is cleared, so the bits above the
  lowest \<open>2 * seq_len\<close> are whatever the generator gave. Neither \<^verbatim>\<open>play\<close> nor its two inner
  loops change \<^verbatim>\<open>seq\<close> or \<^verbatim>\<open>seq_len\<close>, whatever their result.
\<close>

theorem seq_raw_and_kept:
  "(level \<in> {0, 1, 2, 3} \<longrightarrow>
      (\<exists>t. gen_seq level s = (Returned (), t) \<and> seq t = rand_src s (rand_calls s))) \<and>
   seq (snd (play s)) = seq s \<and> seq_len (snd (play s)) = seq_len s \<and>
   seq (snd (play_show i j s)) = seq s \<and> seq_len (snd (play_show i j s)) = seq_len s \<and>
   seq (snd (play_check i j s)) = seq s \<and> seq_len (snd (play_check i j s)) = seq_len s"
proof -
  have "frame s (snd (play s))"
    by (rule play_frame [of s "fst (play s)"]) simp
  moreover have "frame s (snd (play_show i j s))"
    by (rule play_show_frame [of i j s "fst (play_show i j s)"]) simp
  moreover have "frame s (snd (play_check i j s))"
    by (rule play_check_frame [of i j s "fst (play_check i j s)"]) simp
  ultimately show ?thesis
    by (auto simp: frame_def gen_seq_def lengths_def random_def)
qed

text \<open>
  The claim as it was stated fails when the generator returns 16807 at level 0: the
  length is 5 and bit 14 of the sequence is set.
\<close>

theorem seq_high_bits_counterexample:
  "\<exists>t. gen_seq 0 (boot [] (\<lambda>n. 16807)) = (Returned (), t) \<and>
       drop_bit (nat (2 * seq_len t)) (seq t) \<noteq> 0"
  by (simp add: gen_seq_def boot_def lengths_def random_def)

theorem seq_raw_and_kept_witness:
  "(\<exists>t. gen_seq 0 (boot [] (\<lambda>n. 16807)) = (Returned (), t) \<and> seq t = 16807) \<and>
   seq (snd (play (boot [] (\<lambda>n. 16807)))) = 0"
  using seq_raw_and_kept [of 0 "boot [] (\<lambda>n. 16807)"] by (simp add: boot_def)

section \<open>What the port can show\<close>

lemma within_refl [simp]: "within s s"
  by (simp add: within_def)

lemma within_trans: "within s t \<Longrightarrow> within t u \<Longrightarrow> within s u"
  by (auto simp: within_def)

lemma within_mirror [simp]: "within s (set_PORTB (keyboard s) s)"
  by (auto simp: within_def pool_def set_PORTB_def)

lemma within_pattern: "v \<in> patterns \<Longrightarrow> within s (set_PORTB v s)"
  by (auto simp: within_def pool_def set_PORTB_def)

lemma within_FF [simp]: "within s (set_PORTB 0xFF s)"
  by (rule within_pattern) (simp add: patterns_def)

lemma within_random [simp]: "within s (snd (random s))"
  by (simp add: within_def pool_def random_def)

lemma within_sleep [simp]: "within s (s\<lparr>sleep := v\<rparr>)"
  by (simp add: within_def pool_def)

lemma sample_keyboard_within: "sample_keyboard s = (r, t) \<Longrightarrow> within s t"
  by (auto simp: sample_keyboard_def within_def pool_def split: list.splits)

lemma gen_seq_within: "gen_seq level s = (r, t) \<Longrightarrow> within s t"
  by (auto simp: gen_seq_def within_def pool_def random_def Let_def split: if_splits)

lemma bnd_within:
  assumes "bnd f g s = (r, t)"
    and "\<And>r1 s1. f s = (r1, s1) \<Longrightarrow> within s s1"
    and "\<And>v s1. f s = (Returned v, s1) \<Longrightarrow> g v s1 = (r, t) \<Longrightarrow> within s1 t"
  shows "within s t"
  using assms by (auto simp: bnd_def split: prod.splits result.splits intro: within_trans)

lemma delay_loop_within: "delay_loop b i s = (r, t) \<Longrightarrow> within s t"
proof (induction b i s arbitrary: r t rule: delay_loop.induct)
  case (1 b i s)
  show ?case
  proof (cases "i < DELAYTIME")
    case True
    with "1.prems" have "bnd sample_keyboard
          (\<lambda>_ s1. if b \<noteq> 0 \<and> keyboard s1 \<noteq> 0xFF
             then (Returned 1, set_PORTB (keyboard s1) s1)
             else delay_loop b (i + 1) (snd (random s1))) s = (r, t)"
      by (simp add: delay_loop.simps [of b i s])
    then show ?thesis
      by (rule bnd_within)
        (auto intro: sample_keyboard_within within_trans [OF within_random] "1.IH" [OF True]
          split: if_splits)
  next
    case False
    with "1.prems" show ?thesis by (simp add: delay_loop.simps [of b i s])
  qed
qed

lemma delay_within: "delay b s = (r, t) \<Longrightarrow> within s t"
  unfolding delay_def by (rule delay_loop_within)

lemma delay_long_loop_within: "delay_long_loop c b i s = (r, t) \<Longrightarrow> within s t"
proof (induction c b i s arbitrary: r t rule: delay_long_loop.induct)
  case (1 c b i s)
  show ?case
  proof (cases "i < c")
    case True
    with "1.prems" have "bnd (delay b)
          (\<lambda>r s1. if r \<noteq> 0 then (Returned 1, s1)
                   else delay_long_loop c b (i + 1) s1) s = (r, t)"
      by (simp add: delay_long_loop.simps [of c b i s])
    then show ?thesis
      by (rule bnd_within) (auto intro: delay_within "1.IH" [OF True] split: if_splits)
  next
    case False
    with "1.prems" show ?thesis by (simp add: delay_long_loop.simps [of c b i s])
  qed
qed

lemma delay_long_within: "delay_long c b s = (r, t) \<Longrightarrow> within s t"
  unfolding delay_long_def by (rule delay_long_loop_within)

lemma while_key_within: "while_key key s = (r, t) \<Longrightarrow> within s t"
proof (induction key s arbitrary: r t rule: while_key.induct)
  case (1 key s)
  from "1.prems" have "bnd sample_keyboard
       (\<lambda>_ s1. if keyboard s1 = key then while_key key s1 else (Returned (), s1)) s = (r, t)"
    by (simp add: while_key.simps [of key s])
  then show ?case
    by (rule bnd_within) (auto intro: sample_keyboard_within "1.IH" split: if_splits)
qed

lemma while_key_not_within: "while_key_not key s = (r, t) \<Longrightarrow> within s t"
proof (induction key s arbitrary: r t rule: while_key_not.induct)
  case (1 key s)
  from "1.prems" have "bnd sample_keyboard
       (\<lambda>_ s1. if keyboard s1 \<noteq> key then while_key_not key s1 else (Returned (), s1)) s = (r, t)"
    by (simp add: while_key_not.simps [of key s])
  then show ?case
    by (rule bnd_within) (auto intro: sample_keyboard_within "1.IH" split: if_splits)
qed

lemma wait_for_key_loop_within: "wait_for_key_loop count s = (r, t) \<Longrightarrow> within s t"
proof (induction count s arbitrary: r t rule: wait_for_key_loop.induct)
  case (1 count s)
  show ?case
  proof (cases "count > KEYTIMEOUT")
    case True
    with "1.prems" show ?thesis by (simp add: wait_for_key_loop.simps [of count s])
  next
    case False
    with "1.prems" have "bnd sample_keyboard
             (\<lambda>_ s1. if keyboard s1 = 0xFF then wait_for_key_loop (count + 1) s1
                      else (Returned (), s1)) s = (r, t)"
      by (simp add: wait_for_key_loop.simps [of count s])
    then show ?thesis
      by (rule bnd_within)
        (auto intro: sample_keyboard_within "1.IH" [OF False] split: if_splits)
  qed
qed

lemma wait_for_key_within:
  assumes "wait_for_key key s = (r, t)"
  shows "within s t"
  using assms unfolding wait_for_key_def
  apply (rule bnd_within)
   apply (erule while_key_not_within)
  apply (erule bnd_within)
   apply (erule wait_for_key_loop_within)
  apply (simp add: Let_def)
  apply (rule within_trans [OF within_mirror])
  apply (erule bnd_within)
   apply (erule while_key_not_within)
  apply auto
  done

lemma standby_leds_within:
  "(i = 0 \<and> leds = 0xFE) \<or> (i = 1 \<and> leds = 0xFD) \<or> (i = 2 \<and> leds = 0xFB) \<or>
   (i = 3 \<and> leds = 0xF7) \<or> 4 \<le> i \<Longrightarrow>
   standby_leds leds i s = (r, t) \<Longrightarrow> within s t"
proof (induction leds i s arbitrary: r t rule: standby_leds.induct)
  case (1 leds i s)
  show ?case
  proof (cases "i < 4")
    case True
    define s0 where "s0 = (if sleep s = 0 then set_PORTB leds s else s)"
    from True "1.prems"(1) have "leds \<in> patterns"
      by (auto simp: patterns_def)
    then have s0: "within s s0"
      by (simp add: s0_def within_pattern)
    from True "1.prems"(1) have next_leds:
      "(i + 1 = 0 \<and> push_bit 1 leds OR 1 = 0xFE) \<or> (i + 1 = 1 \<and> push_bit 1 leds OR 1 = 0xFD) \<or>
       (i + 1 = 2 \<and> push_bit 1 leds OR 1 = 0xFB) \<or> (i + 1 = 3 \<and> push_bit 1 leds OR 1 = 0xF7) \<or>
       4 \<le> i + 1"
      by auto
    from True "1.prems"(2) have "bnd (delay 1)
          (\<lambda>r s2. if r \<noteq> 0 then (Returned True, set_PORTB 0xFF s2)
                   else standby_leds (push_bit 1 leds OR 1) (i + 1) s2) s0 = (r, t)"
      by (simp add: standby_leds.simps [of leds i s] s0_def)
    then have "within s0 t"
      by (rule bnd_within)
        (auto intro: delay_within "1.IH" [OF True, folded s0_def, OF _ _ next_leds]
          split: if_splits)
    with s0 show ?thesis by (rule within_trans)
  next
    case False
    with "1.prems" show ?thesis by (simp add: standby_leds.simps [of leds i s])
  qed
qed

lemma standby_count_within: "standby_count count s = (r, t) \<Longrightarrow> within s t"
proof (induction count s arbitrary: r t rule: standby_count.induct)
  case (1 count s)
  show ?case
  proof (cases "count < STANDBYTIMEOUT")
    case True
    with "1.prems" have "bnd (standby_leds 0xFE 0)
          (\<lambda>interrupted s1. if interrupted then (Returned 0, s1)
                             else standby_count (count + 1) s1) s = (r, t)"
      by (simp add: standby_count.simps [of count s])
    then show ?thesis
      by (rule bnd_within)
        (auto intro: standby_leds_within "1.IH" [OF True] split: if_splits)
  next
    case False
    with "1.prems" show ?thesis by (auto simp: standby_count.simps [of count s])
  qed
qed

lemma standby_within: "standby s = (r, t) \<Longrightarrow> within s t"
  unfolding standby_def by (rule within_trans [OF within_FF]) (rule standby_count_within)

lemma while_keypattern_not_within: "while_keypattern_not kp s = (r, t) \<Longrightarrow> within s t"
proof (induction kp s arbitrary: r t rule: while_keypattern_not.induct)
  case (1 kp s)
  from "1.prems" have "bnd standby
       (\<lambda>timeout s1.
          if timeout \<noteq> 0 then (Returned (), s1\<lparr>sleep := 1\<rparr>)
          else if NOT (ucast (keyboard s1) :: u16) AND ucast kp AND 0xFF = 0
          then while_keypattern_not kp s1
          else (Returned (), s1\<lparr>sleep := 0\<rparr>)) s = (r, t)"
    by (simp add: while_keypattern_not.simps [of kp s])
  then show ?case
    by (rule bnd_within) (auto intro: standby_within "1.IH" split: if_splits)
qed

lemma init_within:
  assumes "init s = (r, t)"
  shows "within s t"
  using assms unfolding init_def
  apply (rule bnd_within)
   apply (erule while_keypattern_not_within)
  apply (simp split: if_splits)
  apply (rule within_trans [OF within_mirror])
  apply (erule bnd_within)
   apply (erule while_key_not_within)
  apply (erule bnd_within)
   apply (erule while_keypattern_not_within)
  apply (simp add: Let_def split: if_splits)
  apply (rule within_trans [OF within_mirror])
  apply (erule bnd_within)
   apply (erule while_key_not_within)
  apply (rule within_trans [OF within_mirror])
  apply (erule gen_seq_within)
  done

lemma led_at_range: "led_at sq j = Some led \<Longrightarrow> led \<in> {0, 1, 2, 3}"
proof -
  assume "led_at sq j = Some led"
  then have led: "led = uint (drop_bit (nat (2 * j)) sq AND 3)"
    by (auto simp: led_at_def split: if_splits)
  have "drop_bit (nat (2 * j)) sq AND 3 \<le> 3"
    by (rule word_and_le1)
  then have "uint (drop_bit (nat (2 * j)) sq AND 3) \<le> 3"
    by (simp add: word_le_def)
  with led have "led \<le> 3"
    by simp
  moreover from led have "0 \<le> led"
    by simp
  ultimately have "led = 0 \<or> led = 1 \<or> led = 2 \<or> led = 3"
    by arith
  then show ?thesis
    by simp
qed

lemma key_at_patterns: "key_at sq j = Some bits \<Longrightarrow> bits \<in> {0xFE, 0xFD, 0xFB, 0xF7}"
proof -
  assume "key_at sq j = Some bits"
  then obtain led where led: "led_at sq j = Some led" "number2bits led = Some bits"
    by (auto simp: key_at_def split: option.splits)
  from led_at_range [OF led(1)] led(2) show ?thesis
    by (auto simp: number2bits_values)
qed

lemma key_at_within: "key_at sq j = Some bits \<Longrightarrow> within s (set_PORTB bits s)"
  by (rule within_pattern) (auto dest: key_at_patterns simp: patterns_def)

lemma play_show_within: "play_show i j s = (r, t) \<Longrightarrow> within s t"
proof (induction i j s arbitrary: r t rule: play_show.induct)
  case (1 i j s)
  show ?case
  proof (cases "j < i")
    case True
    show ?thesis
    proof (cases "key_at (seq s) j")
      case None
      with True "1.prems" show ?thesis by (simp add: play_show.simps [of i j s])
    next
      case (Some bits)
      with True "1.prems" have "bnd (delay_long 4 0)
               (\<lambda>_ s2. bnd (delay_long 4 0) (\<lambda>_ s4. play_show i (j + 1) s4)
                          (set_PORTB 0xFF s2))
               (set_PORTB bits s) = (r, t)"
        by (simp add: play_show.simps [of i j s])
      then have "within (set_PORTB bits s) t"
        apply (rule bnd_within)
         apply (erule delay_long_within)
        apply (rule within_trans [OF within_FF])
        apply (erule bnd_within)
         apply (erule delay_long_within)
        apply (erule "1.IH" [OF True Some])
          apply assumption+
        done
      then show ?thesis by (rule within_trans [OF key_at_within [OF Some]])
    qed
  next
    case False
    with "1.prems" show ?thesis by (simp add: play_show.simps [of i j s])
  qed
qed

lemma play_check_within: "play_check i j s = (r, t) \<Longrightarrow> within s t"
proof (induction i j s arbitrary: r t rule: play_check.induct)
  case (1 i j s)
  show ?case
  proof (cases "j < i")
    case True
    show ?thesis
    proof (cases "key_at (seq s) j")
      case None
      with True "1.prems" show ?thesis by (simp add: play_check.simps [of i j s])
    next
      case (Some bits)
      with True "1.prems" have "bnd (wait_for_key bits)
               (\<lambda>error s1. if error \<noteq> 0 then (Returned True, s1)
                           else play_check i (j + 1) s1) s = (r, t)"
        by (simp add: play_check.simps [of i j s])
      then show ?thesis
        by (rule bnd_within)
          (auto intro: wait_for_key_within "1.IH" [OF True Some] split: if_splits)
    qed
  next
    case False
    with "1.prems" show ?thesis by (simp add: play_check.simps [of i j s])
  qed
qed

lemma play_rounds_within: "play_rounds i s = (r, t) \<Longrightarrow> within s t"
proof (induction i s arbitrary: r t rule: play_rounds.induct)
  case (1 i s)
  show ?case
  proof (cases "i \<le> seq_len s")
    case True
    with "1.prems" have "bnd (delay_long 12 0)
          (\<lambda>_. bnd (play_show i 0)
             (\<lambda>_. bnd (play_check i 0)
                (\<lambda>failed s3. if failed then (Returned 0, s3) else play_rounds (i + 1) s3))) s
          = (r, t)"
      by (simp add: play_rounds.simps [of i s])
    then show ?thesis
      apply (rule bnd_within)
       apply (erule delay_long_within)
      apply (erule bnd_within)
       apply (erule play_show_within)
      apply (erule bnd_within)
       apply (erule play_check_within)
      apply (auto intro: "1.IH" [OF True] split: if_splits)
      done
  next
    case False
    with "1.prems" show ?thesis by (simp add: play_rounds.simps [of i s])
  qed
qed

lemma play_within: "play s = (r, t) \<Longrightarrow> within s t"
  unfolding play_def by (rule play_rounds_within)

lemma steps_within: "set vs \<subseteq> patterns \<Longrightarrow> steps vs s = (r, t) \<Longrightarrow> within s t"
proof (induction vs arbitrary: s r t)
  case Nil
  then show ?case by simp
next
  case (Cons v vs)
  from Cons.prems have "bnd (delay 0) (\<lambda>_ s1. steps vs s1) (set_PORTB v s) = (r, t)"
    by simp
  then have "within (set_PORTB v s) t"
    by (rule bnd_within) (use Cons.prems(1) in \<open>auto intro: delay_within Cons.IH\<close>)
  moreover from Cons.prems(1) have "within s (set_PORTB v s)"
    by (simp add: within_pattern)
  ultimately show ?case by (rule within_trans [rotated])
qed

lemma celebrate_loop_within: "celebrate_loop i s = (r, t) \<Longrightarrow> within s t"
proof (induction i s arbitrary: r t rule: celebrate_loop.induct)
  case (1 i s)
  show ?case
  proof (cases "i < 3")
    case True
    with "1.prems" show ?thesis
      unfolding celebrate_loop.simps [of i s]
      by (auto elim!: bnd_within intro: "1.IH" [OF True]
          elim: steps_within [rotated] simp: patterns_def)
  next
    case False
    with "1.prems" show ?thesis by (simp add: celebrate_loop.simps [of i s])
  qed
qed

lemma mock_loop_within: "mock_loop i s = (r, t) \<Longrightarrow> within s t"
proof (induction i s arbitrary: r t rule: mock_loop.induct)
  case (1 i s)
  show ?case
  proof (cases "i < 15")
    case True
    with "1.prems" show ?thesis
      unfolding mock_loop.simps [of i s]
      by (auto elim!: bnd_within intro: "1.IH" [OF True]
          elim: steps_within [rotated] simp: patterns_def)
  next
    case False
    with "1.prems" show ?thesis by (simp add: mock_loop.simps [of i s])
  qed
qed

lemma main_loop_within: "main_loop s = (r, t) \<Longrightarrow> within s t"
proof (induction s arbitrary: r t rule: main_loop.induct)
  case (1 s)
  from "1.prems" have "bnd init
       (\<lambda>_ s1.
          if sleep s1 \<noteq> 0 then main_loop s1
          else
            bnd play
              (\<lambda>win s2.
                 bnd (if win \<noteq> 0 then celebrate else mock)
                   (\<lambda>_ s3. bnd (while_key_not 0xFF) (\<lambda>_ s4. main_loop s4) s3) s2) s1) s
       = (r, t)"
    by (simp add: main_loop.simps [of s])
  then show ?case
    apply (rule bnd_within)
     apply (erule init_within)
    apply (simp split: if_splits)
     apply (erule "1.IH"(1))
      apply assumption+
    apply (erule bnd_within)
     apply (erule play_within)
    apply (erule bnd_within)
     apply (auto simp: celebrate_def mock_def
        intro: celebrate_loop_within mock_loop_within split: if_splits)[1]
    apply (erule bnd_within)
     apply (erule while_key_not_within)
    apply (erule "1.IH"(2))
        apply simp
       apply assumption+
    done
qed

lemma while_key_quiet:
  "while_key key s = (r, t) \<Longrightarrow>
   PORTB_trace t = PORTB_trace s \<and> (r = Returned () \<longrightarrow> keyboard t \<in> set (PIND_input s))"
proof (induction key s arbitrary: r t rule: while_key.induct)
  case (1 key s)
  show ?case
  proof (cases "PIND_input s")
    case Nil
    with "1.prems" show ?thesis
      by (simp add: while_key.simps [of key s] bnd_def sample_keyboard_def)
  next
    case (Cons x xs)
    let ?s1 = "s\<lparr>keyboard := x, PIND_input := xs\<rparr>"
    have sk: "sample_keyboard s = (Returned (), ?s1)"
      by (simp add: sample_keyboard_def Cons)
    show ?thesis
    proof (cases "x = key")
      case True
      with "1.prems" have "while_key key ?s1 = (r, t)"
        by (simp add: while_key.simps [of key s] bnd_def sk)
      from "1.IH" [OF sk _ this] True show ?thesis
        by (auto simp: Cons)
    next
      case False
      with "1.prems" show ?thesis
        by (auto simp: while_key.simps [of key s] bnd_def sk Cons)
    qed
  qed
qed

lemma main_writes:
  "set (PORTB_trace (snd (main s)))
     \<subseteq> set (PORTB_trace s) \<union> set (PIND_input s) \<union> {0xFF, 0xFE, 0xFD, 0xFB, 0xF7, 0xF0}"
proof -
  let ?s0 = "set_PORTB 0xFF s"
  obtain r1 s1 where wk: "while_key 0xFF ?s0 = (r1, s1)"
    by (cases "while_key 0xFF ?s0")
  have tr: "PORTB_trace s1 = PORTB_trace s @ [0xFF]"
    using while_key_quiet [OF wk] by (simp add: set_PORTB_def)
  show ?thesis
  proof (cases r1)
    case (Returned u)
    obtain r t where ml: "main_loop s1 = (r, t)"
      by (cases "main_loop s1")
    have m: "main s = (r, t)"
      by (simp add: main_def bnd_def wk Returned ml)
    have "keyboard s1 \<in> set (PIND_input s)"
      using while_key_quiet [OF wk] Returned by (simp add: set_PORTB_def)
    moreover have "set (PIND_input s1) \<subseteq> set (PIND_input s)"
      using while_key_frame [OF wk] by (auto simp: frame_def set_PORTB_def dest: set_mono_suffix)
    ultimately have "pool s1 \<subseteq> set (PORTB_trace s) \<union> set (PIND_input s) \<union> patterns"
      using tr by (auto simp: pool_def patterns_def)
    moreover have "pool t \<subseteq> pool s1"
      using main_loop_within [OF ml] by (simp add: within_def)
    moreover have "set (PORTB_trace t) \<subseteq> pool t"
      by (auto simp: pool_def)
    ultimately show ?thesis
      unfolding m by (auto simp: patterns_def)
  next
    case Starved
    then have "main s = (Starved, s1)"
      by (simp add: main_def bnd_def wk)
    with tr show ?thesis by auto
  next
    case Undefined
    then have "main s = (Undefined, s1)"
      by (simp add: main_def bnd_def wk)
    with tr show ?thesis by auto
  qed
qed

text \<open>
  Claim C9, as the code has it. Every byte written to the port is one of the constants
  \<open>0xFF\<close>, \<open>0xFE\<close>, \<open>0xFD\<close>, \<open>0xFB\<close>, \<open>0xF7\<close>, \<open>0xF0\<close>, whose four high bits are 1, or a
  sample of the input, mirrored by \<^verbatim>\<open>PORTB = keyboard\<close>. So in an execution of \<^verbatim>\<open>main\<close> from
  power-up, run on any list of samples as far as the list goes, all writes have the four
  high bits 1 if all samples have.
\<close>

theorem port_writes:
  "set (PORTB_trace (snd (main (boot samples src))))
     \<subseteq> set samples \<union> {0xFF, 0xFE, 0xFD, 0xFB, 0xF7, 0xF0} \<and>
   ((\<forall>x \<in> set samples. x AND 0xF0 = 0xF0) \<longrightarrow>
    (\<forall>w \<in> set (PORTB_trace (snd (main (boot samples src)))). w AND 0xF0 = 0xF0))"
proof -
  have sub: "set (PORTB_trace (snd (main (boot samples src))))
     \<subseteq> set samples \<union> {0xFF, 0xFE, 0xFD, 0xFB, 0xF7, 0xF0}"
    using main_writes [of "boot samples src"] by (simp add: boot_def)
  moreover have "w AND 0xF0 = 0xF0"
    if "\<forall>x \<in> set samples. x AND 0xF0 = 0xF0"
      and "w \<in> set (PORTB_trace (snd (main (boot samples src))))" for w
  proof -
    from sub that(2) have "w \<in> set samples \<or> w \<in> {0xFF, 0xFE, 0xFD, 0xFB, 0xF7, 0xF0}"
      by auto
    then show ?thesis
    proof
      assume "w \<in> set samples"
      with that(1) show ?thesis by simp
    next
      assume "w \<in> {0xFF, 0xFE, 0xFD, 0xFB, 0xF7, 0xF0}"
      then show ?thesis by auto
    qed
  qed
  ultimately show ?thesis by blast
qed

text \<open>
  The claim as it was stated fails when SW7 is down: the sample \<open>0x7F\<close> is mirrored to the
  port by the interruptible delay of the standby loop, and lights LED7.
\<close>

theorem port_high_bits_counterexample:
  "PORTB_trace (snd (main (boot [0x7F, 0x7F] (\<lambda>n. 0)))) = [0xFF, 0xFF, 0x7F, 0xFF, 0xFF] \<and>
   (0x7F :: u8) AND 0xF0 \<noteq> 0xF0"
  by code_simp

theorem port_writes_witness:
  "list_all (\<lambda>w. w AND 0xF0 = 0xF0)
     (PORTB_trace (snd (main (boot [0xFE, 0xFE, 0xFF, 0xFC, 0xFF] (\<lambda>n. 0)))))"
  using port_writes [of "[0xFE, 0xFE, 0xFF, 0xFC, 0xFF]" "\<lambda>n. 0"]
  by (simp add: list_all_iff)

section \<open>The game against a player\<close>

lemma outcomeI:
  "f = (Returned v, t) \<Longrightarrow> PORTB_trace t = PORTB_trace s @ ws \<Longrightarrow> PIND_input t = rest \<Longrightarrow>
   seq t = seq s \<Longrightarrow> seq_len t = seq_len s \<Longrightarrow> outcome f s v ws rest"
  by (simp add: outcome_def)

lemma outcome_bnd:
  assumes "outcome (f s) s v ws mid"
    and "\<And>t. f s = (Returned v, t) \<Longrightarrow> PIND_input t = mid \<Longrightarrow> seq t = seq s \<Longrightarrow>
           seq_len t = seq_len s \<Longrightarrow> outcome (g v t) t v' ws' rest"
  shows "outcome (bnd f g s) s v' (ws @ ws') rest"
proof -
  obtain r t where ft: "f s = (r, t)" by (cases "f s")
  with assms(1) have r: "r = Returned v" and t: "PORTB_trace t = PORTB_trace s @ ws"
    "PIND_input t = mid" "seq t = seq s" "seq_len t = seq_len s"
    by (simp_all add: outcome_def)
  from assms(2) [OF ft [unfolded r] t(2-4)] show ?thesis
    by (simp add: outcome_def bnd_def ft r t)
qed

lemma outcome_set_PORTB:
  "outcome (f (set_PORTB v s)) (set_PORTB v s) x ws rest \<Longrightarrow>
   outcome (f (set_PORTB v s)) s x (v # ws) rest"
  by (simp add: outcome_def set_PORTB_def)

subsection \<open>One key\<close>

lemma while_key_not_run:
  "key \<notin> set a \<Longrightarrow> PIND_input s = a @ key # rest \<Longrightarrow>
   while_key_not key s = (Returned (), s\<lparr>keyboard := key, PIND_input := rest\<rparr>)"
proof (induction a arbitrary: s)
  case Nil
  then show ?case
    by (subst while_key_not.simps) (simp add: bnd_def sample_keyboard_def)
next
  case (Cons x a)
  let ?s1 = "s\<lparr>keyboard := x, PIND_input := a @ key # rest\<rparr>"
  from Cons.prems have "while_key_not key s = while_key_not key ?s1"
    by (subst while_key_not.simps) (auto simp: bnd_def sample_keyboard_def)
  also from Cons.prems have "\<dots> = (Returned (), ?s1\<lparr>keyboard := key, PIND_input := rest\<rparr>)"
    by (intro Cons.IH) simp_all
  finally show ?case by simp
qed

lemma wait_for_key_loop_press:
  "k \<noteq> 0xFF \<Longrightarrow> count + b \<le> KEYTIMEOUT \<Longrightarrow> PIND_input s = replicate b 0xFF @ k # rest \<Longrightarrow>
   wait_for_key_loop count s = (Returned (), s\<lparr>keyboard := k, PIND_input := rest\<rparr>)"
proof (induction b arbitrary: count s)
  case 0
  then show ?case
    by (subst wait_for_key_loop.simps) (simp add: bnd_def sample_keyboard_def)
next
  case (Suc b)
  let ?s1 = "s\<lparr>keyboard := 0xFF, PIND_input := replicate b 0xFF @ k # rest\<rparr>"
  from Suc.prems have "wait_for_key_loop count s = wait_for_key_loop (count + 1) ?s1"
    by (subst wait_for_key_loop.simps) (simp add: bnd_def sample_keyboard_def)
  also from Suc.prems have "\<dots> = (Returned (), ?s1\<lparr>keyboard := k, PIND_input := rest\<rparr>)"
    by (intro Suc.IH) simp_all
  finally show ?case by simp
qed

lemma wait_for_key_loop_timeout:
  "count + n = Suc KEYTIMEOUT \<Longrightarrow> 0 < n \<Longrightarrow> PIND_input s = replicate n 0xFF @ rest \<Longrightarrow>
   wait_for_key_loop count s = (Returned (), s\<lparr>keyboard := 0xFF, PIND_input := rest\<rparr>)"
proof (induction n arbitrary: count s)
  case 0
  then show ?case by simp
next
  case (Suc n)
  let ?s1 = "s\<lparr>keyboard := 0xFF, PIND_input := replicate n 0xFF @ rest\<rparr>"
  from Suc.prems have step: "wait_for_key_loop count s = wait_for_key_loop (count + 1) ?s1"
    by (subst wait_for_key_loop.simps) (simp add: bnd_def sample_keyboard_def)
  show ?case
  proof (cases n)
    case 0
    with Suc.prems have "wait_for_key_loop (count + 1) ?s1 = (Returned (), ?s1)"
      by (subst wait_for_key_loop.simps) simp
    with step 0 show ?thesis by simp
  next
    case (Suc m)
    with Suc.prems have "wait_for_key_loop (count + 1) ?s1
        = (Returned (), ?s1\<lparr>keyboard := 0xFF, PIND_input := rest\<rparr>)"
      by (intro Suc.IH) simp_all
    with step show ?thesis by simp
  qed
qed

lemma set_PORTB_fields [simp]:
  "PORTB_trace (set_PORTB v s) = PORTB_trace s @ [v]" "keyboard (set_PORTB v s) = keyboard s"
  "PIND_input (set_PORTB v s) = PIND_input s" "sleep (set_PORTB v s) = sleep s"
  "seq (set_PORTB v s) = seq s" "seq_len (set_PORTB v s) = seq_len s"
  "rand_src (set_PORTB v s) = rand_src s" "rand_calls (set_PORTB v s) = rand_calls s"
  by (simp_all add: set_PORTB_def)

lemma wait_for_key_steps:
  assumes 1: "while_key_not 0xFF s = (Returned (), s1)"
    and 2: "wait_for_key_loop 0 s1 = (Returned (), s2)"
    and 3: "while_key_not 0xFF (set_PORTB (keyboard s2) s2) = (Returned (), s4)"
  shows "wait_for_key key s =
    (Returned (if keyboard s2 \<noteq> key then 1 else 0), set_PORTB (keyboard s4) s4)"
  unfolding wait_for_key_def by (simp add: bnd_def 1 2 3 Let_def)

lemma wait_for_key_touch:
  assumes "touch_ok t" and "PIND_input s = touch_samples t @ rest"
  shows "outcome (wait_for_key key s) s (if touch_key t \<noteq> key then 1 else 0)
           [touch_key t, 0xFF] rest"
proof (cases t)
  case (Press a b k c)
  with assms have a: "0xFF \<notin> set a" and c: "0xFF \<notin> set c"
    and k: "k \<noteq> 0xFF" and b: "b \<le> KEYTIMEOUT"
    and inp: "PIND_input s = a @ 0xFF # (replicate b 0xFF @ k # c @ 0xFF # rest)"
    by simp_all
  define s1 where
    "s1 = s\<lparr>keyboard := 0xFF, PIND_input := replicate b 0xFF @ k # c @ 0xFF # rest\<rparr>"
  define s2 where "s2 = s1\<lparr>keyboard := k, PIND_input := c @ 0xFF # rest\<rparr>"
  define s4 where "s4 = (set_PORTB (keyboard s2) s2)\<lparr>keyboard := 0xFF, PIND_input := rest\<rparr>"
  have 1: "while_key_not 0xFF s = (Returned (), s1)"
    unfolding s1_def by (rule while_key_not_run [OF a inp])
  have 2: "wait_for_key_loop 0 s1 = (Returned (), s2)"
    unfolding s2_def
    by (rule wait_for_key_loop_press [OF k, of 0 b]) (simp_all add: b s1_def)
  have 3: "while_key_not 0xFF (set_PORTB (keyboard s2) s2) = (Returned (), s4)"
    unfolding s4_def
    by (rule while_key_not_run [OF c]) (simp add: s2_def)
  show ?thesis
    unfolding wait_for_key_steps [OF 1 2 3]
    by (simp add: outcome_def set_PORTB_def Press s4_def s2_def s1_def)
next
  case (Silent a c)
  have "replicate (KEYTIMEOUT + 2) (0xFF :: u8) = 0xFF # replicate (Suc KEYTIMEOUT) 0xFF"
    by simp
  with Silent assms have a: "0xFF \<notin> set a" and c: "0xFF \<notin> set c"
    and inp: "PIND_input s = a @ 0xFF # (replicate (Suc KEYTIMEOUT) 0xFF @ c @ 0xFF # rest)"
    by simp_all
  define s1 where
    "s1 = s\<lparr>keyboard := 0xFF, PIND_input := replicate (Suc KEYTIMEOUT) 0xFF @ c @ 0xFF # rest\<rparr>"
  define s2 where "s2 = s1\<lparr>keyboard := 0xFF, PIND_input := c @ 0xFF # rest\<rparr>"
  define s4 where "s4 = (set_PORTB (keyboard s2) s2)\<lparr>keyboard := 0xFF, PIND_input := rest\<rparr>"
  have 1: "while_key_not 0xFF s = (Returned (), s1)"
    unfolding s1_def by (rule while_key_not_run [OF a inp])
  have 2: "wait_for_key_loop 0 s1 = (Returned (), s2)"
    unfolding s2_def
    by (rule wait_for_key_loop_timeout [of 0 "Suc KEYTIMEOUT"]) (simp_all add: s1_def)
  have 3: "while_key_not 0xFF (set_PORTB (keyboard s2) s2) = (Returned (), s4)"
    unfolding s4_def
    by (rule while_key_not_run [OF c]) (simp add: s2_def)
  show ?thesis
    unfolding wait_for_key_steps [OF 1 2 3]
    by (simp add: outcome_def set_PORTB_def Silent s4_def s2_def s1_def)
qed

subsection \<open>Showing and checking a round\<close>

lemma key_at_pattern: "j < 16 \<Longrightarrow> key_at sq (int j) = Some (pattern_at sq j)"
proof -
  assume j: "j < 16"
  then obtain led where led: "led_at sq (int j) = Some led"
    by (auto simp: led_at_def)
  from led_at_range [OF led] have "number2bits led \<noteq> None"
    by (auto simp: number2bits_def)
  with led show ?thesis
    by (auto simp: pattern_at_def key_at_def)
qed

lemma pattern_at_patterns: "j < 16 \<Longrightarrow> pattern_at sq j \<in> {0xFE, 0xFD, 0xFB, 0xF7}"
  by (rule key_at_patterns [OF key_at_pattern])

lemma expected_Cons: "j < i \<Longrightarrow> expected sq j i = pattern_at sq j # expected sq (Suc j) i"
  by (simp add: expected_def upt_conv_Cons)

lemma expected_empty [simp]: "i \<le> j \<Longrightarrow> expected sq j i = []"
  by (simp add: expected_def)

lemma length_expected [simp]: "length (expected sq j i) = i - j"
  by (simp add: expected_def)

lemma showing_simps [simp]:
  "showing [] = []" "showing (k # ks) = k # 0xFF # showing ks"
  by (simp_all add: showing_def)

lemma showing_append [simp]: "showing (ks @ ks') = showing ks @ showing ks'"
  by (simp add: showing_def)

lemma length_showing [simp]: "length (showing ks) = 2 * length ks"
  by (induction ks) simp_all

lemma idle_set_PORTB: "idle n (set_PORTB v s) = shown [v] n s"
  using set_PORTB_shown [of v "[]" 0 s] idle_shown [of 0 s n "[v]"] by simp

lemma paced_run:
  assumes "0 < d"
  shows "paced d vs s =
     (if length vs * d \<le> length (PIND_input s)
      then (Returned (), shown vs (length vs * d) s)
      else (Starved, shown (take (Suc (length (PIND_input s) div d)) vs)
                       (length (PIND_input s)) s))"
proof (induction vs arbitrary: s)
  case Nil
  then show ?case by simp
next
  case (Cons v vs)
  show ?case
  proof (cases "d \<le> length (PIND_input s)")
    case False
    then have "length (PIND_input s) div d = 0"
      by simp
    moreover from False have "\<not> length (v # vs) * d \<le> length (PIND_input s)"
      by simp
    ultimately show ?thesis
      using False by (simp add: idle_set_PORTB)
  next
    case True
    have div: "Suc ((length (PIND_input s) - d) div d) = length (PIND_input s) div d"
      using True assms by (simp add: le_div_geq)
    have "paced d (v # vs) s = paced d vs (shown [v] d s)"
      using True by (simp add: idle_set_PORTB)
    also note Cons.IH
    finally show ?thesis
      using True by (auto simp: shown_shown div add.commute)
  qed
qed

lemma play_show_paced:
  "j \<le> i \<Longrightarrow> i \<le> 16 \<Longrightarrow>
   play_show (int i) (int j) s = paced (4 * nat DELAYTIME) (showing (expected (seq s) j i)) s"
proof (induction "i - j" arbitrary: j s)
  case 0
  then show ?case by (subst play_show.simps) simp
next
  case (Suc n)
  then have ji: "j < i" and j16: "j < 16" by simp_all
  let ?d = "4 * nat DELAYTIME"
  let ?s0 = "set_PORTB (pattern_at (seq s) j) s"
  have unfold: "play_show (int i) (int j) s =
      bnd (delay_long 4 0)
        (\<lambda>_ s2. bnd (delay_long 4 0) (\<lambda>_ s4. play_show (int i) (int (Suc j)) s4)
                   (set_PORTB 0xFF s2)) ?s0"
    using ji by (subst play_show.simps) (simp add: key_at_pattern [OF j16] add.commute)
  have IH: "play_show (int i) (1 + int j) s' =
      paced ?d (showing (expected (seq s) (Suc j) i)) s'" if "seq s' = seq s" for s'
    using Suc.hyps(1) [of "Suc j" s'] Suc.hyps(2) Suc.prems that by (simp add: add.commute)
  show ?case
    unfolding unfold expected_Cons [OF ji]
    by (simp add: bnd_def delay_long_0 IH)
qed

lemma play_show_run:
  assumes "j \<le> i" "i \<le> 16"
  shows "play_show (int i) (int j) s =
     (if 8 * (i - j) * nat DELAYTIME \<le> length (PIND_input s)
      then (Returned (),
            shown (showing (expected (seq s) j i)) (8 * (i - j) * nat DELAYTIME) s)
      else (Starved,
            shown (take (Suc (length (PIND_input s) div (4 * nat DELAYTIME)))
                     (showing (expected (seq s) j i)))
              (length (PIND_input s)) s))"
  unfolding play_show_paced [OF assms]
  by (subst paced_run) (simp_all add: DELAYTIME_def)

lemma delay_long_outcome:
  "PIND_input s = pre @ rest \<Longrightarrow> length pre = nat c * nat DELAYTIME \<Longrightarrow>
   outcome (delay_long c 0 s) s 0 [] rest"
  by (simp add: delay_long_0 outcome_def)

lemma play_show_outcome:
  "j \<le> i \<Longrightarrow> i \<le> 16 \<Longrightarrow> PIND_input s = pre @ rest \<Longrightarrow>
   length pre = 8 * (i - j) * nat DELAYTIME \<Longrightarrow>
   outcome (play_show (int i) (int j) s) s () (showing (expected (seq s) j i)) rest"
  by (simp add: play_show_run outcome_def)

lemma play_check_good:
  "list_all touch_ok ts \<Longrightarrow> map touch_key ts = expected (seq s) j i \<Longrightarrow> i \<le> 16 \<Longrightarrow>
   PIND_input s = concat (map touch_samples ts) @ rest \<Longrightarrow>
   outcome (play_check (int i) (int j) s) s False (showing (expected (seq s) j i)) rest"
proof (induction ts arbitrary: j s)
  case Nil
  then have "i \<le> j"
    by (auto simp: expected_def)
  with Nil show ?case
    by (subst play_check.simps) (simp add: outcome_def)
next
  case (Cons t ts)
  from Cons.prems(2) have ji: "j < i"
    by (cases "j < i") (simp_all add: expected_def)
  with Cons.prems(3) have j16: "j < 16" by simp
  from Cons.prems(2) have key: "touch_key t = pattern_at (seq s) j"
    and keys: "map touch_key ts = expected (seq s) (Suc j) i"
    by (simp_all add: expected_Cons [OF ji])
  have unfold: "play_check (int i) (int j) s =
      bnd (wait_for_key (pattern_at (seq s) j))
        (\<lambda>error s1. if error \<noteq> 0 then (Returned True, s1)
                    else play_check (int i) (int j + 1) s1) s"
    using ji by (subst play_check.simps) (simp add: key_at_pattern [OF j16])
  have eq: "int j + 1 = int (Suc j)" by simp
  have w: "outcome (wait_for_key (pattern_at (seq s) j) s) s 0 [touch_key t, 0xFF]
      (concat (map touch_samples ts) @ rest)"
    using wait_for_key_touch [of t s "concat (map touch_samples ts) @ rest" "pattern_at (seq s) j"]
      Cons.prems(1,4) key by simp
  have "outcome (play_check (int i) (int j) s) s False
      ([touch_key t, 0xFF] @ showing (expected (seq s) (Suc j) i)) rest"
    unfolding unfold
  proof (rule outcome_bnd [of "wait_for_key (pattern_at (seq s) j)" s, OF w])
    fix u :: state
    assume u: "PIND_input u = concat (map touch_samples ts) @ rest" "seq u = seq s"
    have "outcome (play_check (int i) (int (Suc j)) u) u False
        (showing (expected (seq u) (Suc j) i)) rest"
      using Cons.prems(1,3) keys u by (intro Cons.IH) simp_all
    then show "outcome (if (0::int) \<noteq> 0 then (Returned True, u)
        else play_check (int i) (int j + 1) u) u False
        (showing (expected (seq s) (Suc j) i)) rest"
      unfolding eq by (simp add: u)
  qed
  then show ?case
    by (simp add: expected_Cons [OF ji] key)
qed

lemma play_check_bad:
  "list_all touch_ok ts \<Longrightarrow> map touch_key ts = expected (seq s) j m \<Longrightarrow> j \<le> m \<Longrightarrow> m < i \<Longrightarrow>
   i \<le> 16 \<Longrightarrow> touch_ok bad \<Longrightarrow> touch_key bad \<noteq> pattern_at (seq s) m \<Longrightarrow>
   PIND_input s = concat (map touch_samples ts) @ touch_samples bad @ rest \<Longrightarrow>
   outcome (play_check (int i) (int j) s) s True
     (showing (expected (seq s) j m) @ [touch_key bad, 0xFF]) rest"
proof (induction ts arbitrary: j s)
  case Nil
  then have jm: "j = m"
    by (auto simp: expected_def)
  with Nil.prems have j16: "j < 16" and ji: "j < i" by simp_all
  have unfold: "play_check (int i) (int j) s =
      bnd (wait_for_key (pattern_at (seq s) j))
        (\<lambda>error s1. if error \<noteq> 0 then (Returned True, s1)
                    else play_check (int i) (int j + 1) s1) s"
    using ji by (subst play_check.simps) (simp add: key_at_pattern [OF j16])
  have eq: "int j + 1 = int (Suc j)" by simp
  have w: "outcome (wait_for_key (pattern_at (seq s) j) s) s 1 [touch_key bad, 0xFF] rest"
    using wait_for_key_touch [of bad s rest "pattern_at (seq s) j"] Nil.prems jm by simp
  have "outcome (play_check (int i) (int j) s) s True ([touch_key bad, 0xFF] @ []) rest"
    unfolding unfold
    by (rule outcome_bnd [of "wait_for_key (pattern_at (seq s) j)" s, OF w]) (simp add: outcome_def)
  then show ?case
    by (simp add: jm)
next
  case (Cons t ts)
  from Cons.prems(2) have jm: "j < m"
    by (cases "j < m") (simp_all add: expected_def)
  with Cons.prems have ji: "j < i" and j16: "j < 16" by simp_all
  from Cons.prems(2) have key: "touch_key t = pattern_at (seq s) j"
    and keys: "map touch_key ts = expected (seq s) (Suc j) m"
    by (simp_all add: expected_Cons [OF jm])
  have unfold: "play_check (int i) (int j) s =
      bnd (wait_for_key (pattern_at (seq s) j))
        (\<lambda>error s1. if error \<noteq> 0 then (Returned True, s1)
                    else play_check (int i) (int j + 1) s1) s"
    using ji by (subst play_check.simps) (simp add: key_at_pattern [OF j16])
  have eq: "int j + 1 = int (Suc j)" by simp
  have w: "outcome (wait_for_key (pattern_at (seq s) j) s) s 0 [touch_key t, 0xFF]
      (concat (map touch_samples ts) @ touch_samples bad @ rest)"
    using wait_for_key_touch [of t s "concat (map touch_samples ts) @ touch_samples bad @ rest"
        "pattern_at (seq s) j"]
      Cons.prems(1,8) key by simp
  have "outcome (play_check (int i) (int j) s) s True
      ([touch_key t, 0xFF] @ (showing (expected (seq s) (Suc j) m) @ [touch_key bad, 0xFF])) rest"
    unfolding unfold
  proof (rule outcome_bnd [of "wait_for_key (pattern_at (seq s) j)" s, OF w])
    fix u :: state
    assume u: "PIND_input u = concat (map touch_samples ts) @ touch_samples bad @ rest"
      "seq u = seq s"
    have "outcome (play_check (int i) (int (Suc j)) u) u True
        (showing (expected (seq u) (Suc j) m) @ [touch_key bad, 0xFF]) rest"
      using Cons.prems keys u jm by (intro Cons.IH) simp_all
    then show "outcome (if (0::int) \<noteq> 0 then (Returned True, u)
        else play_check (int i) (int j + 1) u) u True
        (showing (expected (seq s) (Suc j) m) @ [touch_key bad, 0xFF]) rest"
      unfolding eq by (simp add: u)
  qed
  then show ?case
    by (simp add: expected_Cons [OF jm] key)
qed

lemma outcomeD:
  "outcome rt s v ws rest \<Longrightarrow>
   \<exists>t. rt = (Returned v, t) \<and> PORTB_trace t = PORTB_trace s @ ws \<and> PIND_input t = rest \<and>
       seq t = seq s \<and> seq_len t = seq_len s"
  by (cases rt) (simp add: outcome_def)

subsection \<open>Whole games\<close>

lemma game_trace_step:
  "i < n \<Longrightarrow> game_trace sq i n =
     showing (expected sq 0 i) @ showing (expected sq 0 i) @ game_trace sq (Suc i) n"
  by (simp add: game_trace_def upt_conv_Cons)

lemma game_trace_empty [simp]: "game_trace sq i i = []"
  by (simp add: game_trace_def)

lemma game_samples_simps [simp]:
  "game_samples [] = []"
  "game_samples ((pre, ts) # rs) = pre @ concat (map touch_samples ts) @ game_samples rs"
  by (simp_all add: game_samples_def round_samples_def)

lemma play_round_good:
  assumes i: "int i \<le> seq_len s" "i \<le> 16"
    and pre: "length pre = (12 + 8 * i) * nat DELAYTIME"
    and ts: "list_all touch_ok ts" "map touch_key ts = expected (seq s) 0 i"
    and inp: "PIND_input s = pre @ concat (map touch_samples ts) @ rest"
  shows "\<exists>t. play_rounds (int i) s = play_rounds (int i + 1) t \<and>
             PORTB_trace t = PORTB_trace s @ showing (expected (seq s) 0 i)
                               @ showing (expected (seq s) 0 i) \<and>
             PIND_input t = rest \<and> seq t = seq s \<and> seq_len t = seq_len s"
proof -
  let ?D = "nat DELAYTIME"
  let ?touches = "concat (map touch_samples ts)"
  have split: "pre = take (12 * ?D) pre @ drop (12 * ?D) pre"
    by simp
  have l1: "length (take (12 * ?D) pre) = nat 12 * ?D"
    and l2: "length (drop (12 * ?D) pre) = 8 * (i - 0) * ?D"
    using pre by (simp_all add: add_mult_distrib)
  have "outcome (delay_long 12 0 s) s 0 [] (drop (12 * ?D) pre @ ?touches @ rest)"
    by (rule delay_long_outcome [where pre = "take (12 * ?D) pre", OF _ l1])
       (simp add: inp)
  then obtain t1 where t1: "delay_long 12 0 s = (Returned 0, t1)"
    "PORTB_trace t1 = PORTB_trace s" "PIND_input t1 = drop (12 * ?D) pre @ ?touches @ rest"
    "seq t1 = seq s" "seq_len t1 = seq_len s"
    by (auto dest!: outcomeD)
  have "outcome (play_show (int i) (int 0) t1) t1 () (showing (expected (seq t1) 0 i))
      (?touches @ rest)"
    by (rule play_show_outcome [where pre = "drop (12 * ?D) pre", OF _ i(2) _ l2])
       (simp_all add: t1)
  then obtain t2 where t2: "play_show (int i) 0 t1 = (Returned (), t2)"
    "PORTB_trace t2 = PORTB_trace s @ showing (expected (seq s) 0 i)"
    "PIND_input t2 = ?touches @ rest" "seq t2 = seq s" "seq_len t2 = seq_len s"
    by (auto dest!: outcomeD simp: t1)
  have "outcome (play_check (int i) (int 0) t2) t2 False (showing (expected (seq t2) 0 i)) rest"
    by (rule play_check_good) (use ts i t2 in simp_all)
  then obtain t3 where t3: "play_check (int i) 0 t2 = (Returned False, t3)"
    "PORTB_trace t3 = PORTB_trace s @ showing (expected (seq s) 0 i)
                        @ showing (expected (seq s) 0 i)"
    "PIND_input t3 = rest" "seq t3 = seq s" "seq_len t3 = seq_len s"
    by (auto dest!: outcomeD simp: t2)
  have "play_rounds (int i) s = play_rounds (int i + 1) t3"
    using i(1) by (subst play_rounds.simps) (simp add: bnd_def t1 t2 t3)
  with t3 show ?thesis by blast
qed

lemma play_rounds_good:
  "good_rounds (seq s) i rs \<Longrightarrow> int (i + length rs) = seq_len s + 1 \<Longrightarrow> i + length rs \<le> 17 \<Longrightarrow>
   PIND_input s = game_samples rs @ rest \<Longrightarrow>
   outcome (play_rounds (int i) s) s 1 (game_trace (seq s) i (i + length rs)) rest"
proof (induction rs arbitrary: i s)
  case Nil
  then show ?case
    by (subst play_rounds.simps) (simp add: outcome_def)
next
  case (Cons r rs)
  obtain pre ts where r: "r = (pre, ts)" by (cases r)
  from Cons.prems r have i: "int i \<le> seq_len s" "i \<le> 16"
    and pre: "length pre = (12 + 8 * i) * nat DELAYTIME"
    and ts: "list_all touch_ok ts" "map touch_key ts = expected (seq s) 0 i"
    and rest: "good_rounds (seq s) (Suc i) rs"
    and inp: "PIND_input s = pre @ concat (map touch_samples ts) @ game_samples rs @ rest"
    by simp_all
  from play_round_good [OF i pre ts inp]
  obtain t where t: "play_rounds (int i) s = play_rounds (int i + 1) t"
    "PORTB_trace t = PORTB_trace s @ showing (expected (seq s) 0 i)
                       @ showing (expected (seq s) 0 i)"
    "PIND_input t = game_samples rs @ rest" "seq t = seq s" "seq_len t = seq_len s"
    by blast
  have eq: "int i + 1 = int (Suc i)" by simp
  have "outcome (play_rounds (int (Suc i)) t) t 1
      (game_trace (seq t) (Suc i) (Suc i + length rs)) rest"
    using Cons.prems rest t by (intro Cons.IH) simp_all
  then show ?case
    unfolding t(1) eq
    by (simp add: outcome_def t game_trace_step [of i])
qed

lemma play_round_bad:
  assumes k: "int k \<le> seq_len s" "k \<le> 16"
    and pre: "length pre = (12 + 8 * k) * nat DELAYTIME"
    and ts: "list_all touch_ok ts" "map touch_key ts = expected (seq s) 0 m" "m < k"
    and bad: "touch_ok bad" "touch_key bad \<noteq> pattern_at (seq s) m"
    and inp: "PIND_input s = pre @ concat (map touch_samples ts) @ touch_samples bad @ rest"
  shows "outcome (play_rounds (int k) s) s 0
           (showing (expected (seq s) 0 k) @ showing (expected (seq s) 0 m)
              @ [touch_key bad, 0xFF]) rest"
proof -
  let ?D = "nat DELAYTIME"
  let ?touches = "concat (map touch_samples ts) @ touch_samples bad"
  have l1: "length (take (12 * ?D) pre) = nat 12 * ?D"
    and l2: "length (drop (12 * ?D) pre) = 8 * (k - 0) * ?D"
    using pre by (simp_all add: add_mult_distrib)
  have "outcome (delay_long 12 0 s) s 0 [] (drop (12 * ?D) pre @ ?touches @ rest)"
    by (rule delay_long_outcome [where pre = "take (12 * ?D) pre", OF _ l1])
       (simp add: inp)
  then obtain t1 where t1: "delay_long 12 0 s = (Returned 0, t1)"
    "PORTB_trace t1 = PORTB_trace s" "PIND_input t1 = drop (12 * ?D) pre @ ?touches @ rest"
    "seq t1 = seq s" "seq_len t1 = seq_len s"
    by (auto dest!: outcomeD)
  have "outcome (play_show (int k) (int 0) t1) t1 () (showing (expected (seq t1) 0 k))
      (?touches @ rest)"
    by (rule play_show_outcome [where pre = "drop (12 * ?D) pre", OF _ k(2) _ l2])
       (simp_all add: t1)
  then obtain t2 where t2: "play_show (int k) 0 t1 = (Returned (), t2)"
    "PORTB_trace t2 = PORTB_trace s @ showing (expected (seq s) 0 k)"
    "PIND_input t2 = ?touches @ rest" "seq t2 = seq s" "seq_len t2 = seq_len s"
    by (auto dest!: outcomeD simp: t1)
  have "outcome (play_check (int k) (int 0) t2) t2 True
      (showing (expected (seq t2) 0 m) @ [touch_key bad, 0xFF]) rest"
    by (rule play_check_bad) (use ts k bad t2 in simp_all)
  then obtain t3 where t3: "play_check (int k) 0 t2 = (Returned True, t3)"
    "PORTB_trace t3 = PORTB_trace s @ showing (expected (seq s) 0 k)
                        @ showing (expected (seq s) 0 m) @ [touch_key bad, 0xFF]"
    "PIND_input t3 = rest" "seq t3 = seq s" "seq_len t3 = seq_len s"
    by (auto dest!: outcomeD simp: t2)
  have "play_rounds (int k) s = (Returned 0, t3)"
    using k(1) by (subst play_rounds.simps) (simp add: bnd_def t1 t2 t3)
  with t3 show ?thesis
    by (simp add: outcome_def)
qed

lemma play_rounds_bad:
  "good_rounds (seq s) i rs \<Longrightarrow> int (i + length rs) \<le> seq_len s \<Longrightarrow> i + length rs \<le> 16 \<Longrightarrow>
   length pre = (12 + 8 * (i + length rs)) * nat DELAYTIME \<Longrightarrow>
   list_all touch_ok ts \<Longrightarrow> map touch_key ts = expected (seq s) 0 m \<Longrightarrow> m < i + length rs \<Longrightarrow>
   touch_ok bad \<Longrightarrow> touch_key bad \<noteq> pattern_at (seq s) m \<Longrightarrow>
   PIND_input s = game_samples rs @ pre @ concat (map touch_samples ts) @ touch_samples bad @ rest \<Longrightarrow>
   outcome (play_rounds (int i) s) s 0
     (game_trace (seq s) i (i + length rs) @ showing (expected (seq s) 0 (i + length rs))
        @ showing (expected (seq s) 0 m) @ [touch_key bad, 0xFF]) rest"
proof (induction rs arbitrary: i s)
  case Nil
  then show ?case
    using play_round_bad [of i s pre ts m bad rest] by simp
next
  case (Cons r rs)
  obtain p us where r: "r = (p, us)" by (cases r)
  let ?tail = "game_samples rs @ pre @ concat (map touch_samples ts) @ touch_samples bad @ rest"
  from Cons.prems r have i: "int i \<le> seq_len s" "i \<le> 16"
    and p: "length p = (12 + 8 * i) * nat DELAYTIME"
    and us: "list_all touch_ok us" "map touch_key us = expected (seq s) 0 i"
    and good: "good_rounds (seq s) (Suc i) rs"
    and inp: "PIND_input s = p @ concat (map touch_samples us) @ ?tail"
    by simp_all
  from play_round_good [OF i p us inp]
  obtain t where t: "play_rounds (int i) s = play_rounds (int i + 1) t"
    "PORTB_trace t = PORTB_trace s @ showing (expected (seq s) 0 i)
                       @ showing (expected (seq s) 0 i)"
    "PIND_input t = ?tail" "seq t = seq s" "seq_len t = seq_len s"
    by blast
  have eq: "int i + 1 = int (Suc i)" by simp
  have "outcome (play_rounds (int (Suc i)) t) t 0
     (game_trace (seq t) (Suc i) (Suc i + length rs)
        @ showing (expected (seq t) 0 (Suc i + length rs))
        @ showing (expected (seq t) 0 m) @ [touch_key bad, 0xFF]) rest"
    using Cons.prems good t by (intro Cons.IH) simp_all
  then show ?case
    unfolding t(1) eq
    by (simp add: outcome_def t game_trace_step [of i])
qed

lemma good_rounds_iff: "good_rounds sq i rs \<longleftrightarrow> fair_rounds i rs \<and> keys_right sq i rs"
proof (induction rs arbitrary: i)
  case Nil
  then show ?case by simp
next
  case (Cons r rs)
  obtain pre ts where "r = (pre, ts)" by (cases r)
  with Cons show ?case
    by (auto dest: arg_cong [where f = length])
qed

lemma play_check_wrong:
  "list_all touch_ok ts \<Longrightarrow> length ts = i - j \<Longrightarrow> map touch_key ts \<noteq> expected (seq s) j i \<Longrightarrow>
   i \<le> 16 \<Longrightarrow> PIND_input s = concat (map touch_samples ts) @ rest \<Longrightarrow>
   fst (play_check (int i) (int j) s) = Returned True"
proof (induction ts arbitrary: j s)
  case Nil
  then show ?case by (simp add: expected_def)
next
  case (Cons t ts)
  from Cons.prems(2) have ji: "j < i" by simp
  with Cons.prems(4) have j16: "j < 16" by simp
  have unfold: "play_check (int i) (int j) s =
      bnd (wait_for_key (pattern_at (seq s) j))
        (\<lambda>error s1. if error \<noteq> 0 then (Returned True, s1)
                    else play_check (int i) (int j + 1) s1) s"
    using ji by (subst play_check.simps) (simp add: key_at_pattern [OF j16])
  have eq: "int j + 1 = int (Suc j)" by simp
  from wait_for_key_touch [of t s "concat (map touch_samples ts) @ rest" "pattern_at (seq s) j"]
    Cons.prems(1,5)
  obtain u where u:
    "wait_for_key (pattern_at (seq s) j) s
       = (Returned (if touch_key t \<noteq> pattern_at (seq s) j then 1 else 0), u)"
    "PIND_input u = concat (map touch_samples ts) @ rest" "seq u = seq s"
    by (auto dest!: outcomeD)
  show ?case
  proof (cases "touch_key t = pattern_at (seq s) j")
    case False
    then show ?thesis
      unfolding unfold by (simp add: bnd_def u)
  next
    case True
    with Cons.prems(3) have "map touch_key ts \<noteq> expected (seq u) (Suc j) i"
      by (simp add: expected_Cons [OF ji] u)
    then have "fst (play_check (int i) (int (Suc j)) u) = Returned True"
      using Cons.prems(1,2,4) u by (intro Cons.IH) simp_all
    with True show ?thesis
      unfolding unfold eq [symmetric] by (simp add: bnd_def u)
  qed
qed

lemma play_round_wrong:
  assumes i: "int i \<le> seq_len s" "i \<le> 16"
    and pre: "length pre = (12 + 8 * i) * nat DELAYTIME"
    and ts: "list_all touch_ok ts" "length ts = i" "map touch_key ts \<noteq> expected (seq s) 0 i"
    and inp: "PIND_input s = pre @ concat (map touch_samples ts) @ rest"
  shows "fst (play_rounds (int i) s) = Returned 0"
proof -
  let ?D = "nat DELAYTIME"
  let ?touches = "concat (map touch_samples ts)"
  have l1: "length (take (12 * ?D) pre) = nat 12 * ?D"
    and l2: "length (drop (12 * ?D) pre) = 8 * (i - 0) * ?D"
    using pre by (simp_all add: add_mult_distrib)
  have "outcome (delay_long 12 0 s) s 0 [] (drop (12 * ?D) pre @ ?touches @ rest)"
    by (rule delay_long_outcome [where pre = "take (12 * ?D) pre", OF _ l1])
       (simp add: inp)
  then obtain t1 where t1: "delay_long 12 0 s = (Returned 0, t1)"
    "PIND_input t1 = drop (12 * ?D) pre @ ?touches @ rest"
    "seq t1 = seq s" "seq_len t1 = seq_len s"
    by (auto dest!: outcomeD)
  have "outcome (play_show (int i) (int 0) t1) t1 () (showing (expected (seq t1) 0 i))
      (?touches @ rest)"
    by (rule play_show_outcome [where pre = "drop (12 * ?D) pre", OF _ i(2) _ l2])
       (simp_all add: t1)
  then obtain t2 where t2: "play_show (int i) 0 t1 = (Returned (), t2)"
    "PIND_input t2 = ?touches @ rest" "seq t2 = seq s" "seq_len t2 = seq_len s"
    by (auto dest!: outcomeD simp: t1)
  have "fst (play_check (int i) (int 0) t2) = Returned True"
    by (rule play_check_wrong [where ts = ts and rest = rest]) (use ts i t2 in simp_all)
  then obtain t3 where t3: "play_check (int i) 0 t2 = (Returned True, t3)"
    by (cases "play_check (int i) 0 t2") simp
  show ?thesis
    using i(1) by (subst play_rounds.simps) (simp add: bnd_def t1 t2 t3)
qed

lemma play_rounds_fair:
  "fair_rounds i rs \<Longrightarrow> int (i + length rs) = seq_len s + 1 \<Longrightarrow> i + length rs \<le> 17 \<Longrightarrow>
   PIND_input s = game_samples rs @ rest \<Longrightarrow>
   fst (play_rounds (int i) s) = Returned (if keys_right (seq s) i rs then 1 else 0)"
proof (induction rs arbitrary: i s)
  case Nil
  then show ?case
    by (subst play_rounds.simps) simp
next
  case (Cons r rs)
  obtain pre ts where r: "r = (pre, ts)" by (cases r)
  from Cons.prems r have i: "int i \<le> seq_len s" "i \<le> 16"
    and pre: "length pre = (12 + 8 * i) * nat DELAYTIME"
    and ts: "list_all touch_ok ts" "length ts = i"
    and fair: "fair_rounds (Suc i) rs"
    and inp: "PIND_input s = pre @ concat (map touch_samples ts) @ game_samples rs @ rest"
    by simp_all
  show ?case
  proof (cases "map touch_key ts = expected (seq s) 0 i")
    case False
    with play_round_wrong [OF i pre ts(1,2) _ inp] r show ?thesis
      by simp
  next
    case True
    from play_round_good [OF i pre ts(1) True inp]
    obtain t where t: "play_rounds (int i) s = play_rounds (int i + 1) t"
      "PIND_input t = game_samples rs @ rest" "seq t = seq s" "seq_len t = seq_len s"
      by blast
    have eq: "int i + 1 = int (Suc i)" by simp
    have "fst (play_rounds (int (Suc i)) t)
        = Returned (if keys_right (seq t) (Suc i) rs then 1 else 0)"
      using Cons.prems fair t by (intro Cons.IH) simp_all
    with True r show ?thesis
      unfolding t(1) eq by (simp add: t)
  qed
qed

subsection \<open>Winning and losing\<close>

lemma bnd_assoc: "bnd (bnd f g) h s = bnd f (\<lambda>v t. bnd (g v) h t) s"
  by (simp add: bnd_def split: prod.splits result.splits)

lemma main_loop_feedback:
  "main_loop s =
     bnd init
       (\<lambda>_ s1.
          if sleep s1 \<noteq> 0 then main_loop s1
          else bnd play_and_feedback
                 (\<lambda>_ s3. bnd (while_key_not 0xFF) (\<lambda>_ s4. main_loop s4) s3) s1) s"
  by (subst main_loop.simps)
     (auto simp: play_and_feedback_def bnd_def split: prod.splits result.splits)

lemma celebrate_steps:
  "celebrate s =
     steps (concat (replicate 3
               [0xFE, 0xFF, 0xFE, 0xFF, 0xFD, 0xFF, 0xFD, 0xFF,
                0xFB, 0xFF, 0xFB, 0xFF, 0xF7, 0xFF, 0xF7, 0xFF])) s"
  using celebrate_loop_steps [of 0 s] by (simp add: celebrate_def)

lemma celebrate_outcome:
  "PIND_input s = post @ rest \<Longrightarrow> length post = 48 * nat DELAYTIME \<Longrightarrow>
   outcome (celebrate s) s ()
     (concat (replicate 3 [0xFE, 0xFF, 0xFE, 0xFF, 0xFD, 0xFF, 0xFD, 0xFF,
                           0xFB, 0xFF, 0xFB, 0xFF, 0xF7, 0xFF, 0xF7, 0xFF])) rest"
  by (simp add: celebrate_steps steps_run length_concat_replicate outcome_def)

lemma mock_outcome:
  "PIND_input s = post @ rest \<Longrightarrow> length post = 30 * nat DELAYTIME \<Longrightarrow>
   outcome (mock s) s () (concat (replicate 15 [0xF0, 0xFF])) rest"
  by (simp add: mock_steps steps_run length_concat_replicate outcome_def)

lemma lit_pattern_at:
  assumes "j < 16"
  shows "lit (pattern_at sq j) = [unat (drop_bit (2 * j) sq AND 3)]"
proof -
  define w where "w = drop_bit (2 * j) sq AND 3"
  have led: "led_at sq (int j) = Some (uint w)"
    using assms by (simp add: led_at_def w_def nat_mult_distrib)
  from led_at_range [OF led] consider "uint w = 0" | "uint w = 1" | "uint w = 2" | "uint w = 3"
    by auto
  then have "lit (pattern_at sq j) = [nat (uint w)]"
    unfolding pattern_at_def key_at_def led
    by cases (simp_all add: number2bits_values lit_values del: nat_uint_eq)
  then show ?thesis
    by (simp add: w_def)
qed

lemma showing_expected:
  "showing (expected sq 0 i) = concat (map (\<lambda>j. [pattern_at sq j, 0xFF]) [0..<i])"
  by (simp add: showing_def expected_def comp_def)

lemma while_key_not_starved: "PIND_input s = [] \<Longrightarrow> while_key_not key s = (Starved, s)"
  by (subst while_key_not.simps) (simp add: bnd_def sample_keyboard_def)

lemma wait_for_key_starved: "PIND_input s = [] \<Longrightarrow> wait_for_key key s = (Starved, s)"
  by (simp add: wait_for_key_def bnd_def while_key_not_starved)

lemma play_check_starved:
  "0 < i \<Longrightarrow> i \<le> 16 \<Longrightarrow> PIND_input s = [] \<Longrightarrow> play_check (int i) 0 s = (Starved, s)"
  using key_at_pattern [of 0 "seq s"]
  by (subst play_check.simps) (simp add: bnd_def wait_for_key_starved)

lemma play_rounds_waiting:
  assumes i: "0 < i" "int i \<le> seq_len s" "i \<le> 16"
    and len: "length (PIND_input s) = (12 + 8 * i) * nat DELAYTIME"
  shows "\<exists>t. play_rounds (int i) s = (Starved, t) \<and>
             PORTB_trace t = PORTB_trace s @ showing (expected (seq s) 0 i)"
proof -
  let ?D = "nat DELAYTIME"
  let ?pre = "PIND_input s"
  have l1: "length (take (12 * ?D) ?pre) = nat 12 * ?D"
    and l2: "length (drop (12 * ?D) ?pre) = 8 * (i - 0) * ?D"
    using len by (simp_all add: add_mult_distrib)
  have "outcome (delay_long 12 0 s) s 0 [] (drop (12 * ?D) ?pre @ [])"
    by (rule delay_long_outcome [where pre = "take (12 * ?D) ?pre", OF _ l1]) simp
  then obtain t1 where t1: "delay_long 12 0 s = (Returned 0, t1)"
    "PORTB_trace t1 = PORTB_trace s" "PIND_input t1 = drop (12 * ?D) ?pre @ []"
    "seq t1 = seq s" "seq_len t1 = seq_len s"
    by (auto dest!: outcomeD)
  have "outcome (play_show (int i) (int 0) t1) t1 () (showing (expected (seq t1) 0 i)) []"
    by (rule play_show_outcome [where pre = "drop (12 * ?D) ?pre", OF _ i(3) _ l2])
       (use t1 in simp_all)
  then obtain t2 where t2: "play_show (int i) 0 t1 = (Returned (), t2)"
    "PORTB_trace t2 = PORTB_trace s @ showing (expected (seq s) 0 i)"
    "PIND_input t2 = []" "seq t2 = seq s" "seq_len t2 = seq_len s"
    by (auto dest!: outcomeD simp: t1)
  have "play_rounds (int i) s = (Starved, t2)"
    using i(2) play_check_starved [OF i(1,3) t2(3)]
    by (subst play_rounds.simps) (simp add: bnd_def t1 t2)
  with t2 show ?thesis by blast
qed

text \<open>
  Claim C3. In round \<open>i\<close> (up to 16, the most that the shifts allow) the playback loop
  writes, for the places 0 to \<open>i - 1\<close> in this order, the pattern of the symbol and then
  \<^verbatim>\<open>0xFF\<close>, and nothing else. It is paced by the samples: a write is followed by
  \<open>4 * DELAYTIME\<close> samples before the next one, so after \<open>m\<close> samples the port has seen the
  first \<open>m div (4 * DELAYTIME) + 1\<close> of these writes, and the loop returns after
  \<open>8 * i * DELAYTIME\<close> samples. The pattern of place \<open>j\<close> lights the one LED whose number is
  \<^verbatim>\<open>(seq >> (j*2)) & 0b11\<close>, and \<^verbatim>\<open>0xFF\<close> lights none. In \<^verbatim>\<open>play\<close>, round \<open>i\<close> from 1 to \<^verbatim>\<open>seq_len\<close>
  has shown exactly this by the time it starts to wait for the first key.
\<close>

theorem playback_prefix:
  assumes "i \<le> 16"
  shows
    "(\<exists>t. play_show (int i) 0 s =
            (if 8 * i * nat DELAYTIME \<le> length (PIND_input s) then Returned () else Starved, t) \<and>
          PORTB_trace t = PORTB_trace s @
            take (Suc (length (PIND_input s) div (4 * nat DELAYTIME)))
              (concat (map (\<lambda>j. [pattern_at (seq s) j, 0xFF]) [0..<i])) \<and>
          PIND_input t = drop (8 * i * nat DELAYTIME) (PIND_input s)) \<and>
     (\<forall>j<i. lit (pattern_at (seq s) j) = [unat (drop_bit (2 * j) (seq s) AND 3)]) \<and>
     lit 0xFF = [] \<and>
     (0 < i \<and> int i \<le> seq_len s \<and> length (PIND_input s) = (12 + 8 * i) * nat DELAYTIME \<longrightarrow>
        (\<exists>t. play_rounds (int i) s = (Starved, t) \<and>
             PORTB_trace t = PORTB_trace s @
               concat (map (\<lambda>j. [pattern_at (seq s) j, 0xFF]) [0..<i])))"
proof (intro conjI allI impI)
  let ?ws = "showing (expected (seq s) 0 i)"
  let ?len = "length (PIND_input s)"
  have full: "take (Suc (?len div (4 * nat DELAYTIME))) ?ws = ?ws"
    if "8 * i * nat DELAYTIME \<le> ?len"
  proof -
    from that have "(2 * i) * (4 * nat DELAYTIME) \<le> ?len"
      by simp
    then have "2 * i \<le> ?len div (4 * nat DELAYTIME)"
      by (subst less_eq_div_iff_mult_less_eq) (simp_all add: DELAYTIME_def)
    then show ?thesis
      by simp
  qed
  show "\<exists>t. play_show (int i) 0 s =
            (if 8 * i * nat DELAYTIME \<le> ?len then Returned () else Starved, t) \<and>
          PORTB_trace t = PORTB_trace s @
            take (Suc (?len div (4 * nat DELAYTIME)))
              (concat (map (\<lambda>j. [pattern_at (seq s) j, 0xFF]) [0..<i])) \<and>
          PIND_input t = drop (8 * i * nat DELAYTIME) (PIND_input s)"
    using play_show_run [of 0 i s] assms full
    by (auto simp: showing_expected [symmetric])
  show "lit (pattern_at (seq s) j) = [unat (drop_bit (2 * j) (seq s) AND 3)]" if "j < i" for j
    using that assms by (intro lit_pattern_at) simp
  show "lit 0xFF = []"
    by (simp add: lit_values)
  show "\<exists>t. play_rounds (int i) s = (Starved, t) \<and>
             PORTB_trace t = PORTB_trace s @
               concat (map (\<lambda>j. [pattern_at (seq s) j, 0xFF]) [0..<i])"
    if "0 < i \<and> int i \<le> seq_len s \<and> length (PIND_input s) = (12 + 8 * i) * nat DELAYTIME"
    using play_rounds_waiting [of i s] that assms
    by (simp add: showing_expected)
qed

lemma demo_fields [simp]:
  "seq (demo samples) = 626" "seq_len (demo samples) = 5" "PORTB_trace (demo samples) = []"
  "PIND_input (demo samples) = samples"
  by (simp_all add: demo_def)

lemma demo_patterns:
  "pattern_at 626 0 = 0xFB" "pattern_at 626 1 = 0xFE" "pattern_at 626 2 = 0xF7"
  "pattern_at 626 3 = 0xFD" "pattern_at 626 4 = 0xFB"
  by (simp_all add: pattern_at_def key_at_def led_at_def number2bits_def)

lemma demo_expected:
  "expected 626 0 5 = [0xFB, 0xFE, 0xF7, 0xFD, 0xFB]"
  by code_simp

lemma length_perfect_rounds [simp]: "length (perfect_rounds sq i n) = n - i"
  by (simp add: perfect_rounds_def)

lemma perfect_touches:
  "k \<le> 16 \<Longrightarrow> list_all touch_ok (map (\<lambda>k. Press [] 0 k []) (expected sq 0 k)) \<and>
     map touch_key (map (\<lambda>k. Press [] 0 k []) (expected sq 0 k)) = expected sq 0 k"
proof -
  assume "k \<le> 16"
  then have "pattern_at sq j \<noteq> 0xFF" if "j < k" for j
    using pattern_at_patterns [of j sq] that by auto
  then show ?thesis
    by (auto simp: list_all_iff expected_def comp_def)
qed

lemma good_perfect_rounds: "n \<le> 17 \<Longrightarrow> good_rounds sq i (perfect_rounds sq i n)"
proof (induction "n - i" arbitrary: i)
  case 0
  then show ?case by (simp add: perfect_rounds_def)
next
  case (Suc d)
  then have i: "i < n" "i \<le> 16" by simp_all
  have "perfect_rounds sq i n =
      (replicate ((12 + 8 * i) * nat DELAYTIME) 0xFF, map (\<lambda>k. Press [] 0 k []) (expected sq 0 i))
        # perfect_rounds sq (Suc i) n"
    using i(1) by (simp add: perfect_rounds_def upt_conv_Cons)
  moreover have "good_rounds sq (Suc i) (perfect_rounds sq (Suc i) n)"
    using Suc by (intro Suc.hyps) simp_all
  ultimately show ?case
    using perfect_touches [OF i(2), of sq] by simp
qed

theorem playback_prefix_witness:
  "fst (play_show 3 0 (demo (replicate 7200 0xFE))) = Returned () \<and>
   PORTB_trace (snd (play_show 3 0 (demo (replicate 7200 0xFE))))
     = [0xFB, 0xFF, 0xFE, 0xFF, 0xF7, 0xFF] \<and>
   lit (pattern_at 626 0) = [2] \<and> lit (pattern_at 626 1) = [0] \<and> lit (pattern_at 626 2) = [3]"
proof -
  have three: "(3 :: nat) \<le> 16" by simp
  note w = playback_prefix [OF three, of "demo (replicate 7200 0xFE)"]
  from w [THEN conjunct1] obtain t where
    t: "play_show (int 3) 0 (demo (replicate 7200 0xFE)) = (Returned (), t)"
      "PORTB_trace t = take 7 (concat (map (\<lambda>j. [pattern_at 626 j, 0xFF]) [0..<3]))"
    by (auto simp: DELAYTIME_def)
  have "take 7 (concat (map (\<lambda>j. [pattern_at 626 j, 0xFF]) [0..<3]))
      = [0xFB, 0xFF, 0xFE, 0xFF, 0xF7, 0xFF]"
    by code_simp
  with t have "fst (play_show 3 0 (demo (replicate 7200 0xFE))) = Returned ()"
    "PORTB_trace (snd (play_show 3 0 (demo (replicate 7200 0xFE))))
       = [0xFB, 0xFF, 0xFE, 0xFF, 0xF7, 0xFF]"
    by simp_all
  moreover have "lit (pattern_at 626 0) = [2]" "lit (pattern_at 626 1) = [0]"
    "lit (pattern_at 626 2) = [3]"
    by (simp_all only: demo_patterns lit_values)
  ultimately show ?thesis by simp
qed

subsection \<open>Every game that ends\<close>

lemma bnd_ReturnedE:
  assumes "bnd f g s = (Returned w, t)"
  obtains v s1 where "f s = (Returned v, s1)" "g v s1 = (Returned w, t)"
  using assms by (auto simp: bnd_def split: prod.splits result.splits)

lemma while_key_not_held:
  "key \<notin> set (PIND_input s) \<Longrightarrow>
   fst (while_key_not key s) = Starved \<and>
   PORTB_trace (snd (while_key_not key s)) = PORTB_trace s"
proof (induction xs \<equiv> "PIND_input s" arbitrary: s)
  case Nil
  then show ?case by (simp add: while_key_not_starved)
next
  case (Cons x xs)
  let ?s1 = "s\<lparr>keyboard := x, PIND_input := xs\<rparr>"
  from Cons.hyps(2) [symmetric] Cons.prems
  have "while_key_not key s = while_key_not key ?s1"
    by (subst while_key_not.simps) (auto simp: bnd_def sample_keyboard_def)
  moreover have "fst (while_key_not key ?s1) = Starved \<and>
      PORTB_trace (snd (while_key_not key ?s1)) = PORTB_trace ?s1"
    using Cons.hyps(2) [symmetric] Cons.prems by (intro Cons.hyps(1)) simp_all
  ultimately show ?case by simp
qed

lemma while_key_not_returns:
  assumes "while_key_not key s = (Returned v, t)"
  shows "\<exists>a. key \<notin> set a \<and> PIND_input s = a @ key # PIND_input t"
proof -
  from assms while_key_not_held [of key s] have "key \<in> set (PIND_input s)"
    by auto
  then obtain a rest where a: "PIND_input s = a @ key # rest" "key \<notin> set a"
    by (auto dest: split_list_first)
  from while_key_not_run [OF a(2,1)] assms have "PIND_input t = rest"
    by auto
  with a show ?thesis by auto
qed

lemma wait_for_key_loop_returns:
  "wait_for_key_loop count s = (Returned v, t) \<Longrightarrow> count \<le> KEYTIMEOUT \<Longrightarrow>
   (\<exists>b k. k \<noteq> 0xFF \<and> count + b \<le> KEYTIMEOUT \<and>
          PIND_input s = replicate b 0xFF @ k # PIND_input t) \<or>
   PIND_input s = replicate (Suc KEYTIMEOUT - count) 0xFF @ PIND_input t"
proof (induction count s arbitrary: v t rule: wait_for_key_loop.induct)
  case (1 count s)
  from "1.prems" obtain x xs where inp: "PIND_input s = x # xs"
    by (cases "PIND_input s")
       (auto simp: wait_for_key_loop.simps [of count s] bnd_def sample_keyboard_def)
  let ?s1 = "s\<lparr>keyboard := x, PIND_input := xs\<rparr>"
  have sample: "sample_keyboard s = (Returned (), ?s1)"
    by (simp add: sample_keyboard_def inp)
  show ?case
  proof (cases "x = 0xFF")
    case False
    with "1.prems" inp have "t = ?s1"
      by (simp add: wait_for_key_loop.simps [of count s] bnd_def sample_keyboard_def)
    with False inp "1.prems"(2) show ?thesis
      by (intro disjI1 exI [of _ 0] exI [of _ x]) simp
  next
    case True
    with "1.prems" inp have rec: "wait_for_key_loop (count + 1) ?s1 = (Returned v, t)"
      by (simp add: wait_for_key_loop.simps [of count s] bnd_def sample_keyboard_def)
    show ?thesis
    proof (cases "count = KEYTIMEOUT")
      case eq: True
      with rec have "t = ?s1"
        by (simp add: wait_for_key_loop.simps [of "Suc KEYTIMEOUT"])
      with eq inp True show ?thesis
        by simp
    next
      case False
      with "1.prems"(2) have le: "count + 1 \<le> KEYTIMEOUT" by simp
      have "(\<exists>b k. k \<noteq> 0xFF \<and> count + 1 + b \<le> KEYTIMEOUT \<and>
               PIND_input ?s1 = replicate b 0xFF @ k # PIND_input t) \<or>
            PIND_input ?s1 = replicate (Suc KEYTIMEOUT - (count + 1)) 0xFF @ PIND_input t"
        using "1.prems"(2) True by (intro "1.IH" [OF _ sample _ rec le]) simp_all
      then show ?thesis
      proof
        assume "\<exists>b k. k \<noteq> 0xFF \<and> count + 1 + b \<le> KEYTIMEOUT \<and>
               PIND_input ?s1 = replicate b 0xFF @ k # PIND_input t"
        then obtain b k where "k \<noteq> 0xFF" "count + 1 + b \<le> KEYTIMEOUT"
          "xs = replicate b 0xFF @ k # PIND_input t"
          by auto
        with inp True show ?thesis
          by (intro disjI1 exI [of _ "Suc b"] exI [of _ k]) simp
      next
        assume "PIND_input ?s1 = replicate (Suc KEYTIMEOUT - (count + 1)) 0xFF @ PIND_input t"
        moreover from le have "Suc KEYTIMEOUT - count = Suc (Suc KEYTIMEOUT - (count + 1))"
          by simp
        ultimately show ?thesis
          using inp True by simp
      qed
    qed
  qed
qed

lemma wait_for_key_returns:
  assumes "wait_for_key key s = (Returned e, t)"
  shows "\<exists>tc. touch_ok tc \<and> PIND_input s = touch_samples tc @ PIND_input t \<and>
              e = (if touch_key tc \<noteq> key then 1 else 0) \<and>
              PORTB_trace t = PORTB_trace s @ [touch_key tc, 0xFF]"
proof -
  from assms obtain v1 s1 v2 s2 v3 s3 where
    1: "while_key_not 0xFF s = (Returned v1, s1)"
    and 2: "wait_for_key_loop 0 s1 = (Returned v2, s2)"
    and 3: "while_key_not 0xFF (set_PORTB (keyboard s2) s2) = (Returned v3, s3)"
    unfolding wait_for_key_def Let_def
    by (elim bnd_ReturnedE) blast
  from while_key_not_returns [OF 1] obtain a where
    a: "0xFF \<notin> set a" "PIND_input s = a @ 0xFF # PIND_input s1"
    by auto
  from while_key_not_returns [OF 3] obtain c where
    c: "0xFF \<notin> set c" "PIND_input s2 = c @ 0xFF # PIND_input s3"
    by (auto simp: set_PORTB_def)
  from wait_for_key_loop_returns [OF 2]
  have "\<exists>tc. touch_ok tc \<and> PIND_input s = touch_samples tc @ PIND_input s3"
  proof
    assume "\<exists>b k. k \<noteq> 0xFF \<and> 0 + b \<le> KEYTIMEOUT \<and>
      PIND_input s1 = replicate b 0xFF @ k # PIND_input s2"
    then obtain b k where "k \<noteq> 0xFF" "b \<le> KEYTIMEOUT"
      "PIND_input s1 = replicate b 0xFF @ k # PIND_input s2"
      by auto
    with a c show ?thesis
      by (intro exI [of _ "Press a b k c"]) simp
  next
    assume "PIND_input s1 = replicate (Suc KEYTIMEOUT - 0) 0xFF @ PIND_input s2"
    with a c show ?thesis
      by (intro exI [of _ "Silent a c"]) simp
  qed simp
  then obtain tc where tc: "touch_ok tc" "PIND_input s = touch_samples tc @ PIND_input s3"
    by auto
  from wait_for_key_touch [OF tc, where key = key] assms
  have "e = (if touch_key tc \<noteq> key then 1 else 0)" "PIND_input t = PIND_input s3"
    "PORTB_trace t = PORTB_trace s @ [touch_key tc, 0xFF]"
    by (auto dest!: outcomeD)
  with tc show ?thesis by auto
qed

lemma wait_for_key_held:
  "0xFF \<notin> set (PIND_input s) \<Longrightarrow>
   fst (wait_for_key key s) = Starved \<and> PORTB_trace (snd (wait_for_key key s)) = PORTB_trace s"
  using while_key_not_held [of "0xFF" s]
  by (cases "while_key_not 0xFF s") (simp add: wait_for_key_def bnd_def)

lemma play_check_returns:
  assumes "play_check (int i) (int j) s = (Returned b, t)" and "i \<le> 16"
  shows "(\<not> b \<and> (\<exists>ts. list_all touch_ok ts \<and> map touch_key ts = expected (seq s) j i \<and>
                     PIND_input s = concat (map touch_samples ts) @ PIND_input t)) \<or>
         (b \<and> (\<exists>ts m bad. list_all touch_ok ts \<and> map touch_key ts = expected (seq s) j m \<and>
                     j \<le> m \<and> m < i \<and> touch_ok bad \<and> touch_key bad \<noteq> pattern_at (seq s) m \<and>
                     PIND_input s = concat (map touch_samples ts) @ touch_samples bad
                                      @ PIND_input t))"
  using assms
proof (induction d \<equiv> "i - j" arbitrary: j s)
  case 0
  then have "i \<le> j" by simp
  with "0.prems" have "b = False" "t = s"
    by (simp_all add: play_check.simps [of "int i" "int j" s])
  with \<open>i \<le> j\<close> show ?case
    by (auto intro!: exI [of _ "[]"])
next
  case (Suc d)
  then have ji: "j < i" and j16: "j < 16" by simp_all
  have eq: "int j + 1 = int (Suc j)" by simp
  from Suc.prems(1) ji have "bnd (wait_for_key (pattern_at (seq s) j))
        (\<lambda>error s1. if error \<noteq> 0 then (Returned True, s1)
                    else play_check (int i) (int (Suc j)) s1) s = (Returned b, t)"
    unfolding eq [symmetric]
    by (simp add: play_check.simps [of "int i" "int j" s] key_at_pattern [OF j16])
  then obtain e s1 where w: "wait_for_key (pattern_at (seq s) j) s = (Returned e, s1)"
    and r: "(if e \<noteq> 0 then (Returned True, s1)
             else play_check (int i) (int (Suc j)) s1) = (Returned b, t)"
    by (rule bnd_ReturnedE)
  from wait_for_key_returns [OF w] obtain tc where tc: "touch_ok tc"
    "PIND_input s = touch_samples tc @ PIND_input s1"
    "e = (if touch_key tc \<noteq> pattern_at (seq s) j then 1 else 0)"
    by auto
  from wait_for_key_frame [OF w] have sq: "seq s1 = seq s"
    by (simp add: frame_def)
  show ?case
  proof (cases "e = 0")
    case False
    with r have "b" "t = s1" by simp_all
    moreover from False tc(3) have "touch_key tc \<noteq> pattern_at (seq s) j"
      by (simp split: if_splits)
    ultimately show ?thesis
      using tc ji by (intro disjI2 conjI exI [of _ "[]"] exI [of _ j] exI [of _ tc]) simp_all
  next
    case True
    with r have rec: "play_check (int i) (int (Suc j)) s1 = (Returned b, t)"
      by simp
    from True tc(3) have key: "touch_key tc = pattern_at (seq s) j"
      by (simp split: if_splits)
    from Suc.hyps(2) have d: "d = i - Suc j" by simp
    from Suc.hyps(1) [OF d rec Suc.prems(2)] show ?thesis
    proof (elim disjE conjE exE)
      fix ts
      assume "\<not> b" "list_all touch_ok ts" "map touch_key ts = expected (seq s1) (Suc j) i"
        "PIND_input s1 = concat (map touch_samples ts) @ PIND_input t"
      then show ?thesis
        using tc key sq by (intro disjI1 conjI exI [of _ "tc # ts"]) (simp_all add: expected_Cons [OF ji])
    next
      fix ts m bad
      assume "b" "list_all touch_ok ts" "map touch_key ts = expected (seq s1) (Suc j) m"
        "Suc j \<le> m" "m < i" "touch_ok bad" "touch_key bad \<noteq> pattern_at (seq s1) m"
        "PIND_input s1 = concat (map touch_samples ts) @ touch_samples bad @ PIND_input t"
      then show ?thesis
        using tc key sq
        by (intro disjI2 conjI exI [of _ "tc # ts"] exI [of _ m] exI [of _ bad])
           (simp_all add: expected_Cons [of j m])
    qed
  qed
qed

lemma play_rounds_returns:
  assumes "play_rounds (int i) s = (Returned w, t)" and "0 < i" and "i \<le> Suc n"
    and "seq_len s = int n" and "n \<le> 16"
  shows "(w = 1 \<and> (\<exists>rs. good_rounds (seq s) i rs \<and> i + length rs = Suc n \<and>
                     PIND_input s = game_samples rs @ PIND_input t)) \<or>
         (w = 0 \<and> (\<exists>rs pre ts m bad. good_rounds (seq s) i rs \<and> i + length rs \<le> n \<and>
                     length pre = (12 + 8 * (i + length rs)) * nat DELAYTIME \<and>
                     list_all touch_ok ts \<and> map touch_key ts = expected (seq s) 0 m \<and>
                     m < i + length rs \<and> touch_ok bad \<and>
                     touch_key bad \<noteq> pattern_at (seq s) m \<and>
                     PIND_input s = game_samples rs @ pre @ concat (map touch_samples ts)
                                      @ touch_samples bad @ PIND_input t))"
  using assms
proof (induction d \<equiv> "Suc n - i" arbitrary: i s)
  case 0
  then have "i = Suc n" by simp
  with "0.prems"(4) have "play_rounds (int i) s = (Returned 1, s)"
    by (subst play_rounds.simps) simp
  with "0.prems"(1) have "w = 1" "t = s"
    by simp_all
  with \<open>i = Suc n\<close> show ?case
    by (auto intro!: exI [of _ "[]"])
next
  case (Suc d)
  let ?D = "nat DELAYTIME"
  let ?inp = "PIND_input s"
  from Suc have i: "i \<le> n" "i \<le> 16" by simp_all
  have eq: "int i + 1 = int (Suc i)" by simp
  from Suc.prems(1,4) i have "bnd (delay_long 12 0)
          (\<lambda>_. bnd (play_show (int i) 0)
             (\<lambda>_. bnd (play_check (int i) 0)
                (\<lambda>failed s3. if failed then (Returned 0, s3)
                              else play_rounds (int (Suc i)) s3))) s = (Returned w, t)"
    unfolding eq [symmetric]
    by (simp add: play_rounds.simps [of "int i" s])
  then obtain v1 s1 v2 s2 failed s3 where
    1: "delay_long 12 0 s = (Returned v1, s1)"
    and 2: "play_show (int i) (int 0) s1 = (Returned v2, s2)"
    and 3: "play_check (int i) (int 0) s2 = (Returned failed, s3)"
    and r: "(if failed then (Returned 0, s3) else play_rounds (int (Suc i)) s3) = (Returned w, t)"
    by (elim bnd_ReturnedE) simp
  from 1 have l1: "12 * ?D \<le> length ?inp" and p1: "PIND_input s1 = drop (12 * ?D) ?inp"
    and q1: "seq s1 = seq s" "seq_len s1 = seq_len s"
    by (auto simp: delay_long_0 split: if_splits)
  from 2 i play_show_run [of 0 i s1]
  have l2: "8 * i * ?D \<le> length (PIND_input s1)"
    and p2: "PIND_input s2 = drop (8 * i * ?D) (PIND_input s1)"
    and q2: "seq s2 = seq s1" "seq_len s2 = seq_len s1"
    by (auto split: if_splits)
  define pre where "pre = take ((12 + 8 * i) * ?D) ?inp"
  from l1 l2 p1 have len: "length pre = (12 + 8 * i) * ?D"
    by (simp add: pre_def add_mult_distrib)
  have inp: "?inp = pre @ PIND_input s2"
    by (simp add: pre_def p1 p2 add_mult_distrib add.commute)
  from play_check_frame [OF 3] have s3: "seq s3 = seq s" "seq_len s3 = seq_len s"
    by (simp_all add: frame_def q1 q2)
  have sq2: "seq s2 = seq s"
    by (simp add: q1 q2)
  from play_check_returns [OF 3 i(2)] show ?case
  proof (elim disjE conjE exE)
    fix ts m bad
    assume "failed" "list_all touch_ok ts" "map touch_key ts = expected (seq s2) 0 m"
      "0 \<le> m" "m < i" "touch_ok bad" "touch_key bad \<noteq> pattern_at (seq s2) m"
      "PIND_input s2 = concat (map touch_samples ts) @ touch_samples bad @ PIND_input s3"
    moreover from \<open>failed\<close> r have "w = 0" "t = s3" by simp_all
    ultimately show ?thesis
      using i len inp sq2
      by (intro disjI2 conjI exI [of _ "[]"] exI [of _ pre] exI [of _ ts] exI [of _ m]
            exI [of _ bad]) simp_all
  next
    fix ts
    assume ok: "\<not> failed" "list_all touch_ok ts" "map touch_key ts = expected (seq s2) 0 i"
      "PIND_input s2 = concat (map touch_samples ts) @ PIND_input s3"
    with r have rec: "play_rounds (int (Suc i)) s3 = (Returned w, t)" by simp
    from Suc.hyps(2) have d: "d = Suc n - Suc i" by simp
    have g: "good_rounds (seq s) i ((pre, ts) # rs)" if "good_rounds (seq s3) (Suc i) rs" for rs
      using that ok len sq2 s3 by simp
    have smp: "?inp = game_samples ((pre, ts) # rs) @ rest"
      if "PIND_input s3 = game_samples rs @ rest" for rs rest
      using that ok inp by (simp add: round_samples_def)
    from Suc.hyps(1) [OF d rec] i Suc.prems(4,5) s3
    have "(w = 1 \<and> (\<exists>rs. good_rounds (seq s3) (Suc i) rs \<and> Suc i + length rs = Suc n \<and>
                     PIND_input s3 = game_samples rs @ PIND_input t)) \<or>
         (w = 0 \<and> (\<exists>rs pre ts m bad. good_rounds (seq s3) (Suc i) rs \<and>
                     Suc i + length rs \<le> n \<and>
                     length pre = (12 + 8 * (Suc i + length rs)) * nat DELAYTIME \<and>
                     list_all touch_ok ts \<and> map touch_key ts = expected (seq s3) 0 m \<and>
                     m < Suc i + length rs \<and> touch_ok bad \<and>
                     touch_key bad \<noteq> pattern_at (seq s3) m \<and>
                     PIND_input s3 = game_samples rs @ pre @ concat (map touch_samples ts)
                                      @ touch_samples bad @ PIND_input t))"
      by simp
    then show ?thesis
    proof (elim disjE conjE exE)
      fix rs
      assume "w = 1" "good_rounds (seq s3) (Suc i) rs" "Suc i + length rs = Suc n"
        "PIND_input s3 = game_samples rs @ PIND_input t"
      then show ?thesis
        using g [of rs] smp [of rs "PIND_input t"]
        by (intro disjI1 conjI exI [of _ "(pre, ts) # rs"]) simp_all
    next
      fix rs pre' ts' m bad
      assume "w = 0" "good_rounds (seq s3) (Suc i) rs" "Suc i + length rs \<le> n"
        "length pre' = (12 + 8 * (Suc i + length rs)) * nat DELAYTIME"
        "list_all touch_ok ts'" "map touch_key ts' = expected (seq s3) 0 m"
        "m < Suc i + length rs" "touch_ok bad" "touch_key bad \<noteq> pattern_at (seq s3) m"
        "PIND_input s3 = game_samples rs @ pre' @ concat (map touch_samples ts')
                                      @ touch_samples bad @ PIND_input t"
      then show ?thesis
        using g [of rs] smp [of rs "pre' @ concat (map touch_samples ts')
                                      @ touch_samples bad @ PIND_input t"] s3
        by (intro disjI2 conjI exI [of _ "(pre, ts) # rs"] exI [of _ pre'] exI [of _ ts']
              exI [of _ m] exI [of _ bad]) simp_all
    qed
  qed
qed

lemma good_rounds_append:
  "good_rounds sq i (rs @ rs') \<longleftrightarrow>
     good_rounds sq i rs \<and> good_rounds sq (i + length rs) rs'"
  by (induction rs arbitrary: i) auto

lemma game_samples_append [simp]:
  "game_samples (rs @ rs') = game_samples rs @ game_samples rs'"
  by (simp add: game_samples_def)

lemma spec_pressed_released:
  "spec_pressed False (replicate n 0xFF @ xs) = spec_pressed False xs"
  by (induction n) simp_all

lemma spec_pressed_replicate: "spec_pressed down (replicate n 0xFF) = []"
  by (induction n arbitrary: down) simp_all

lemma demo_expected_1: "expected 626 0 (Suc 0) = [0xFB]"
  by code_simp

lemma demo_expected_2: "expected 626 0 2 = [0xFB, 0xFE]"
  by code_simp

text \<open>
  Claim C1, as the code has it. Let the sequence have \<open>n\<close> symbols (up to 16). At each
  place of each round \<^verbatim>\<open>wait_for_key\<close> reads one touch: it lets pass, without limit, the
  samples in which a key is still down, up to a sample with all keys released, and then
  judges the first pattern sampled with a key down, or times out. A player whose samples
  are one touch for each place of each of the \<open>n\<close> rounds, as far as the game goes, wins
  exactly when every judged pattern is the expected one: \<^verbatim>\<open>play\<close> returns 1 if they are and
  0 if they are not. In the first case \<^verbatim>\<open>play\<close> has read exactly the samples of the \<open>n\<close>
  rounds, \<^verbatim>\<open>main\<close> goes on with \<^verbatim>\<open>celebrate\<close>, and \<^verbatim>\<open>celebrate\<close> writes its 16 bytes exactly 3
  times over the next \<open>48 * DELAYTIME\<close> samples. In the second case, where after some right
  rounds and \<open>m\<close> right keys a touch does not give the expected pattern (another pattern is
  judged, or the time runs out), \<^verbatim>\<open>play\<close> returns 0 and \<^verbatim>\<open>main\<close> goes on with \<^verbatim>\<open>mock\<close>. No game
  is left out: whatever the samples are, a run of \<^verbatim>\<open>play\<close> that returns 1 has read \<open>n\<close>
  rounds of right touches and nothing else, and a run that returns 0 has read some right
  rounds, then a playback, some right touches and one touch that fails.
\<close>

theorem win_and_lose:
  assumes "seq_len s = int n" and "n \<le> 16"
  shows
    "(fair_rounds 1 rs \<and> length rs = n \<and> PIND_input s = game_samples rs @ rest \<longrightarrow>
        fst (play s) = Returned (if keys_right (seq s) 1 rs then 1 else 0)) \<and>
     (good_rounds (seq s) 1 rs \<and> length rs = n \<and>
      PIND_input s = game_samples rs @ post @ rest \<and> length post = 48 * nat DELAYTIME \<longrightarrow>
        (\<exists>t u. play s = (Returned 1, t) \<and> PIND_input t = post @ rest \<and>
           PORTB_trace t = PORTB_trace s @ game_trace (seq s) 1 (Suc n) \<and>
           play_and_feedback s = celebrate t \<and> celebrate t = (Returned (), u) \<and>
           PORTB_trace u = PORTB_trace t @
             concat (replicate 3 [0xFE, 0xFF, 0xFE, 0xFF, 0xFD, 0xFF, 0xFD, 0xFF,
                                  0xFB, 0xFF, 0xFB, 0xFF, 0xF7, 0xFF, 0xF7, 0xFF]) \<and>
           PIND_input u = rest)) \<and>
     (good_rounds (seq s) 1 rs \<and> length rs < n \<and>
      length pre = (12 + 8 * Suc (length rs)) * nat DELAYTIME \<and>
      list_all touch_ok ts \<and> map touch_key ts = expected (seq s) 0 m \<and> m \<le> length rs \<and>
      touch_ok bad \<and> touch_key bad \<noteq> pattern_at (seq s) m \<and>
      PIND_input s = game_samples rs @ pre @ concat (map touch_samples ts)
                       @ touch_samples bad @ rest \<longrightarrow>
        fst (play s) = Returned 0 \<and> play_and_feedback s = mock (snd (play s))) \<and>
     (play s = (Returned w, v) \<longrightarrow>
        (w = 1 \<and>
         (\<exists>gs. good_rounds (seq s) 1 gs \<and> length gs = n \<and>
               PIND_input s = game_samples gs @ PIND_input v)) \<or>
        (w = 0 \<and>
         (\<exists>gs shown_for rights k failing.
             good_rounds (seq s) 1 gs \<and> length gs < n \<and>
             length shown_for = (12 + 8 * Suc (length gs)) * nat DELAYTIME \<and>
             list_all touch_ok rights \<and> map touch_key rights = expected (seq s) 0 k \<and>
             k \<le> length gs \<and> touch_ok failing \<and>
             touch_key failing \<noteq> pattern_at (seq s) k \<and>
             PIND_input s = game_samples gs @ shown_for @ concat (map touch_samples rights)
                              @ touch_samples failing @ PIND_input v)))"
proof (intro conjI impI)
  assume "fair_rounds 1 rs \<and> length rs = n \<and> PIND_input s = game_samples rs @ rest"
  then show "fst (play s) = Returned (if keys_right (seq s) 1 rs then 1 else 0)"
    using play_rounds_fair [of 1 rs s rest] assms by (simp add: play_def)
next
  assume a: "good_rounds (seq s) 1 rs \<and> length rs = n \<and>
      PIND_input s = game_samples rs @ post @ rest \<and> length post = 48 * nat DELAYTIME"
  have "outcome (play_rounds (int 1) s) s 1 (game_trace (seq s) 1 (1 + length rs)) (post @ rest)"
    by (rule play_rounds_good) (use assms a in simp_all)
  then obtain t where t: "play s = (Returned 1, t)" "PIND_input t = post @ rest"
    "PORTB_trace t = PORTB_trace s @ game_trace (seq s) 1 (Suc n)"
    using a by (auto dest!: outcomeD simp: play_def)
  have "outcome (celebrate t) t ()
     (concat (replicate 3 [0xFE, 0xFF, 0xFE, 0xFF, 0xFD, 0xFF, 0xFD, 0xFF,
                           0xFB, 0xFF, 0xFB, 0xFF, 0xF7, 0xFF, 0xF7, 0xFF])) rest"
    by (rule celebrate_outcome [OF t(2)]) (use a in simp)
  then obtain u where u: "celebrate t = (Returned (), u)"
    "PORTB_trace u = PORTB_trace t @
       concat (replicate 3 [0xFE, 0xFF, 0xFE, 0xFF, 0xFD, 0xFF, 0xFD, 0xFF,
                            0xFB, 0xFF, 0xFB, 0xFF, 0xF7, 0xFF, 0xF7, 0xFF])"
    "PIND_input u = rest"
    by (auto dest!: outcomeD)
  have "play_and_feedback s = celebrate t"
    by (simp add: play_and_feedback_def bnd_def t(1))
  with t u show "\<exists>t u. play s = (Returned 1, t) \<and> PIND_input t = post @ rest \<and>
           PORTB_trace t = PORTB_trace s @ game_trace (seq s) 1 (Suc n) \<and>
           play_and_feedback s = celebrate t \<and> celebrate t = (Returned (), u) \<and>
           PORTB_trace u = PORTB_trace t @
             concat (replicate 3 [0xFE, 0xFF, 0xFE, 0xFF, 0xFD, 0xFF, 0xFD, 0xFF,
                                  0xFB, 0xFF, 0xFB, 0xFF, 0xF7, 0xFF, 0xF7, 0xFF]) \<and>
           PIND_input u = rest"
    by blast
next
  assume b: "good_rounds (seq s) 1 rs \<and> length rs < n \<and>
      length pre = (12 + 8 * Suc (length rs)) * nat DELAYTIME \<and>
      list_all touch_ok ts \<and> map touch_key ts = expected (seq s) 0 m \<and> m \<le> length rs \<and>
      touch_ok bad \<and> touch_key bad \<noteq> pattern_at (seq s) m \<and>
      PIND_input s = game_samples rs @ pre @ concat (map touch_samples ts)
                       @ touch_samples bad @ rest"
  have "outcome (play_rounds (int 1) s) s 0
     (game_trace (seq s) 1 (1 + length rs) @ showing (expected (seq s) 0 (1 + length rs))
        @ showing (expected (seq s) 0 m) @ [touch_key bad, 0xFF]) rest"
    by (rule play_rounds_bad [where pre = pre and ts = ts]) (use assms b in simp_all)
  then obtain t where t: "play s = (Returned 0, t)"
    by (auto dest!: outcomeD simp: play_def)
  then show "fst (play s) = Returned 0"
    by simp
  from t show "play_and_feedback s = mock (snd (play s))"
    by (simp add: play_and_feedback_def bnd_def)
next
  assume "play s = (Returned w, v)"
  then have r: "play_rounds (int 1) s = (Returned w, v)"
    by (simp add: play_def)
  have one: "0 < (1 :: nat)" "1 \<le> Suc n"
    by simp_all
  from play_rounds_returns [OF r one assms]
  show "(w = 1 \<and>
         (\<exists>gs. good_rounds (seq s) 1 gs \<and> length gs = n \<and>
               PIND_input s = game_samples gs @ PIND_input v)) \<or>
        (w = 0 \<and>
         (\<exists>gs shown_for rights k failing.
             good_rounds (seq s) 1 gs \<and> length gs < n \<and>
             length shown_for = (12 + 8 * Suc (length gs)) * nat DELAYTIME \<and>
             list_all touch_ok rights \<and> map touch_key rights = expected (seq s) 0 k \<and>
             k \<le> length gs \<and> touch_ok failing \<and>
             touch_key failing \<noteq> pattern_at (seq s) k \<and>
             PIND_input s = game_samples gs @ shown_for @ concat (map touch_samples rights)
                              @ touch_samples failing @ PIND_input v))"
    by (simp add: less_Suc_eq_le Suc_le_eq)
qed

text \<open>
  Claim C2, as the code has it. Let the player get the rounds \<open>rs\<close> right and, in the
  round after them, the first \<open>m\<close> keys; and let the next touch fail: after the samples in
  which a key is still down and the samples with all keys released that follow, the
  first pattern sampled with a key down is not the expected one, or there is none within
  the key-timeout budget (a touch that times out always fails). Then \<^verbatim>\<open>play\<close> returns 0 at
  once: it has read the input up to the release after the failing touch and not one
  sample more, and the last bytes on the port are the playback of that round, the mirrors
  of the \<open>m\<close> right keys and the mirror of the failing touch. No later place of the round and
  no later round is played or checked. Every call of \<^verbatim>\<open>wait_for_key\<close> that returns has read
  exactly one such touch, mirrored its judged pattern and then \<^verbatim>\<open>0xFF\<close>, and reports an error
  exactly when the judged pattern is not the expected one. While no sample has all keys
  released the call only waits: it judges nothing, writes nothing and never times out.
\<close>

theorem first_error_ends_play:
  assumes "seq_len s = int n" and "n \<le> 16" and "good_rounds (seq s) 1 rs"
    and "length rs < n" and "length pre = (12 + 8 * Suc (length rs)) * nat DELAYTIME"
    and "list_all touch_ok ts" and "map touch_key ts = expected (seq s) 0 m"
    and "m \<le> length rs" and "touch_ok bad" and "touch_key bad \<noteq> pattern_at (seq s) m"
    and "PIND_input s = game_samples rs @ pre @ concat (map touch_samples ts)
                          @ touch_samples bad @ rest"
  shows
    "(\<exists>t. play s = (Returned 0, t) \<and> PIND_input t = rest \<and>
          PORTB_trace t = PORTB_trace s @ game_trace (seq s) 1 (Suc (length rs))
             @ concat (map (\<lambda>j. [pattern_at (seq s) j, 0xFF]) [0..<Suc (length rs)])
             @ concat (map (\<lambda>j. [pattern_at (seq s) j, 0xFF]) [0..<m])
             @ [touch_key bad, 0xFF]) \<and>
     touch_key (Silent a c) \<noteq> pattern_at (seq s) m \<and>
     (wait_for_key key u = (Returned e, v) \<longrightarrow>
        (\<exists>tc. touch_ok tc \<and> PIND_input u = touch_samples tc @ PIND_input v \<and>
              e = (if touch_key tc \<noteq> key then 1 else 0) \<and>
              PORTB_trace v = PORTB_trace u @ [touch_key tc, 0xFF])) \<and>
     (0xFF \<notin> set (PIND_input u) \<longrightarrow>
        fst (wait_for_key key u) = Starved \<and>
        PORTB_trace (snd (wait_for_key key u)) = PORTB_trace u)"
proof -
  have "outcome (play_rounds (int 1) s) s 0
     (game_trace (seq s) 1 (1 + length rs) @ showing (expected (seq s) 0 (1 + length rs))
        @ showing (expected (seq s) 0 m) @ [touch_key bad, 0xFF]) rest"
    by (rule play_rounds_bad [where pre = pre and ts = ts]) (use assms in simp_all)
  then have c1: "\<exists>t. play s = (Returned 0, t) \<and> PIND_input t = rest \<and>
          PORTB_trace t = PORTB_trace s @ game_trace (seq s) 1 (Suc (length rs))
             @ concat (map (\<lambda>j. [pattern_at (seq s) j, 0xFF]) [0..<Suc (length rs)])
             @ concat (map (\<lambda>j. [pattern_at (seq s) j, 0xFF]) [0..<m])
             @ [touch_key bad, 0xFF]"
    by (auto dest!: outcomeD simp: play_def showing_expected)
  from assms have "m < 16"
    by simp
  from pattern_at_patterns [OF this, of "seq s"]
  have c2: "touch_key (Silent a c) \<noteq> pattern_at (seq s) m"
    by auto
  have c3: "wait_for_key key u = (Returned e, v) \<longrightarrow>
        (\<exists>tc. touch_ok tc \<and> PIND_input u = touch_samples tc @ PIND_input v \<and>
              e = (if touch_key tc \<noteq> key then 1 else 0) \<and>
              PORTB_trace v = PORTB_trace u @ [touch_key tc, 0xFF])"
    by (rule impI) (erule wait_for_key_returns)
  have c4: "0xFF \<notin> set (PIND_input u) \<longrightarrow>
        fst (wait_for_key key u) = Starved \<and>
        PORTB_trace (snd (wait_for_key key u)) = PORTB_trace u"
    by (rule impI) (erule wait_for_key_held)
  show ?thesis
    by (intro conjI) (fact c1, fact c2, fact c3, fact c4)
qed

text \<open>
  Two rounds right, then in round 3 the key of symbol 1 where symbol 2 was shown first;
  the same with no key at all; a key that is down for all of 2000 samples; and the touch
  that a call has read which returned on three samples.
\<close>

theorem first_error_ends_play_witness:
  "fst (play (demo (game_samples (perfect_rounds 626 1 3) @ replicate 10800 0xFF
                      @ touch_samples (Press [] 0 0xFD []) @ [0xFE, 0xFE]))) = Returned 0 \<and>
   PIND_input (snd (play (demo (game_samples (perfect_rounds 626 1 3) @ replicate 10800 0xFF
                      @ touch_samples (Press [] 0 0xFD []) @ [0xFE, 0xFE])))) = [0xFE, 0xFE] \<and>
   fst (play (demo (game_samples (perfect_rounds 626 1 3) @ replicate 10800 0xFF
                      @ touch_samples (Silent [] []) @ [0xFE]))) = Returned 0 \<and>
   PIND_input (snd (play (demo (game_samples (perfect_rounds 626 1 3) @ replicate 10800 0xFF
                      @ touch_samples (Silent [] []) @ [0xFE])))) = [0xFE] \<and>
   fst (wait_for_key 0xFE (demo (replicate 2000 0xFD))) = Starved \<and>
   fst (wait_for_key 0xFE (demo [0xFF, 0xFD, 0xFF])) = Returned 1 \<and>
   (\<exists>tc. touch_ok tc \<and> touch_key tc = 0xFD \<and> [0xFF, 0xFD, 0xFF] = touch_samples tc)"
proof -
  let ?rs = "perfect_rounds 626 1 3"
  let ?pre = "replicate 10800 (0xFF :: u8)"
  let ?u = "demo [0xFF, 0xFD, 0xFF]"
  have good: "good_rounds (seq (demo samples)) 1 ?rs" for samples
    by (simp add: good_perfect_rounds)
  have pre: "length ?pre = (12 + 8 * Suc (length ?rs)) * nat DELAYTIME"
    by (simp add: DELAYTIME_def)
  have none: "list_all touch_ok []" "map touch_key [] = expected (seq (demo samples)) 0 0"
    for samples
    by simp_all
  have wrong: "touch_ok (Press [] 0 0xFD [])"
    "touch_key (Press [] 0 0xFD []) \<noteq> pattern_at (seq (demo samples)) 0" for samples
    by (simp_all add: demo_patterns)
  have silent: "touch_ok (Silent [] [])"
    "touch_key (Silent [] []) \<noteq> pattern_at (seq (demo samples)) 0" for samples
    by (simp_all add: demo_patterns)
  have "outcome (wait_for_key 0xFE ?u) ?u
          (if touch_key (Press [] 0 0xFD []) \<noteq> 0xFE then 1 else 0)
          [touch_key (Press [] 0 0xFD []), 0xFF] []"
    by (rule wait_for_key_touch [OF wrong(1)]) simp
  then obtain v where v: "wait_for_key 0xFE ?u = (Returned 1, v)"
    "PORTB_trace v = [0xFD, 0xFF]" "PIND_input v = []"
    by (auto dest!: outcomeD)
  have l5: "seq_len (demo samples) = int 5" for samples
    by simp
  have five: "(5 :: nat) \<le> 16" and short: "length ?rs < 5" and zero: "0 \<le> length ?rs"
    by simp_all
  have inp: "PIND_input (demo (game_samples ?rs @ ?pre @ touch_samples (Press [] 0 0xFD [])
                 @ [0xFE, 0xFE]))
      = game_samples ?rs @ ?pre @ concat (map touch_samples [])
          @ touch_samples (Press [] 0 0xFD []) @ [0xFE, 0xFE]"
    by simp
  note w = first_error_ends_play [where
      s = "demo (game_samples ?rs @ ?pre @ touch_samples (Press [] 0 0xFD []) @ [0xFE, 0xFE])"
      and n = 5 and rs = ?rs and pre = ?pre and ts = "[]" and m = 0
      and bad = "Press [] 0 0xFD []" and rest = "[0xFE, 0xFE]",
      OF l5 five good short pre none zero wrong inp]
  have 1: "\<exists>t. play (demo (game_samples ?rs @ ?pre @ touch_samples (Press [] 0 0xFD [])
                      @ [0xFE, 0xFE])) = (Returned 0, t) \<and> PIND_input t = [0xFE, 0xFE]"
    using w [THEN conjunct1] by auto
  have 3: "fst (wait_for_key 0xFE (demo (replicate 2000 0xFD))) = Starved"
    using w [where u = "demo (replicate 2000 0xFD)" and key = "0xFE",
        THEN conjunct2, THEN conjunct2, THEN conjunct2]
    by simp
  from w [where u = ?u and key = "0xFE" and e = 1 and v = v,
      THEN conjunct2, THEN conjunct2, THEN conjunct1, THEN mp, OF v(1)]
  have 4: "\<exists>tc. touch_ok tc \<and> touch_key tc = 0xFD \<and> [0xFF, 0xFD, 0xFF] = touch_samples tc"
    using v(2,3) by auto
  have 2: "\<exists>t. play (demo (game_samples ?rs @ ?pre @ touch_samples (Silent [] []) @ [0xFE]))
              = (Returned 0, t) \<and> PIND_input t = [0xFE]"
    using first_error_ends_play [where
        s = "demo (game_samples ?rs @ ?pre @ touch_samples (Silent [] []) @ [0xFE])"
        and n = 5 and rs = ?rs and pre = ?pre and ts = "[]" and m = 0
        and bad = "Silent [] []" and rest = "[0xFE]",
        OF _ _ good _ pre none _ silent, THEN conjunct1]
    by auto
  from 1 2 have 12:
    "fst (play (demo (game_samples ?rs @ ?pre @ touch_samples (Press [] 0 0xFD [])
                        @ [0xFE, 0xFE]))) = Returned 0"
    "PIND_input (snd (play (demo (game_samples ?rs @ ?pre @ touch_samples (Press [] 0 0xFD [])
                        @ [0xFE, 0xFE])))) = [0xFE, 0xFE]"
    "fst (play (demo (game_samples ?rs @ ?pre @ touch_samples (Silent [] []) @ [0xFE])))
       = Returned 0"
    "PIND_input (snd (play (demo (game_samples ?rs @ ?pre @ touch_samples (Silent [] [])
                        @ [0xFE])))) = [0xFE]"
    by auto
  from v(1) have 5: "fst (wait_for_key 0xFE ?u) = Returned 1"
    by simp
  from 12 3 5 4 show ?thesis
    by (intro conjI)
qed

text \<open>
  The claim as it was stated, with the first pressed key judged, fails in round 2 of this
  game. At the second place \<^verbatim>\<open>0xFE\<close> is expected; the player presses \<^verbatim>\<open>0xFD\<close> one sample after
  releasing the first key, releases it and presses \<^verbatim>\<open>0xFE\<close>. The sample with all keys
  released before \<^verbatim>\<open>0xFD\<close> ended the wait after the first key, so \<^verbatim>\<open>0xFD\<close> falls into the wait
  for release that opens the next call: it is not judged, and with the other rounds right
  the game is won. The same with \<^verbatim>\<open>0xFD\<close> down from the first sample of a call. And a key
  held for more than twice the budget, with no sample released: the call has not
  returned.
\<close>

theorem swallowed_press_counterexample:
  "spec_pressed False [0xFF, 0xFB, 0xFF, 0xFD, 0xFF, 0xFE, 0xFF] = [0xFB, 0xFD, 0xFE] \<and>
   expected 626 0 2 = [0xFB, 0xFE] \<and>
   fst (play (demo (game_samples (perfect_rounds 626 1 2) @ replicate 8400 0xFF
                      @ [0xFF, 0xFB, 0xFF, 0xFD, 0xFF, 0xFE, 0xFF]
                      @ game_samples (perfect_rounds 626 3 6)))) = Returned 1 \<and>
   spec_pressed False [0xFD, 0xFF, 0xFE, 0xFF] = [0xFD, 0xFE] \<and>
   fst (wait_for_key 0xFE (demo [0xFD, 0xFF, 0xFE, 0xFF])) = Returned 0 \<and>
   PORTB_trace (snd (wait_for_key 0xFE (demo [0xFD, 0xFF, 0xFE, 0xFF]))) = [0xFE, 0xFF] \<and>
   fst (wait_for_key 0xFE (demo (replicate (2 * KEYTIMEOUT + 4) 0xFD))) = Starved"
proof -
  let ?r2 = "(replicate 8400 (0xFF :: u8), [Press [] 0 0xFB [], Press [0xFD] 0 0xFE []])"
  let ?rs = "perfect_rounds 626 1 2 @ ?r2 # perfect_rounds 626 3 6"
  let ?inp = "game_samples (perfect_rounds 626 1 2) @ replicate 8400 0xFF
                @ [0xFF, 0xFB, 0xFF, 0xFD, 0xFF, 0xFE, 0xFF]
                @ game_samples (perfect_rounds 626 3 6)"
  have g1: "good_rounds 626 1 (perfect_rounds 626 1 2)"
    and g3: "good_rounds 626 3 (perfect_rounds 626 3 6)"
    by (simp_all add: good_perfect_rounds)
  from g3 have g2: "good_rounds 626 2 (?r2 # perfect_rounds 626 3 6)"
    by (simp add: demo_expected_2 DELAYTIME_def)
  have len: "1 + length (perfect_rounds 626 1 2) = 2"
    by simp
  from g2 have "good_rounds 626 (1 + length (perfect_rounds 626 1 2))
      (?r2 # perfect_rounds 626 3 6)"
    by (simp only: len)
  with g1 have "good_rounds 626 1 ?rs"
    unfolding good_rounds_append by (rule conjI)
  then have good: "good_rounds (seq (demo ?inp)) 1 ?rs"
    by (simp only: demo_fields)
  have inp: "PIND_input (demo ?inp) = game_samples ?rs @ []"
    by (simp add: round_samples_def)
  have "outcome (play_rounds (int 1) (demo ?inp)) (demo ?inp) 1
          (game_trace (seq (demo ?inp)) 1 (1 + length ?rs)) []"
    by (rule play_rounds_good [OF good _ _ inp]) simp_all
  then have won: "fst (play (demo ?inp)) = Returned 1"
    by (simp add: outcome_def play_def)
  have ok: "touch_ok (Press [0xFD] 0 0xFE [])"
    by simp
  have "outcome (wait_for_key 0xFE (demo [0xFD, 0xFF, 0xFE, 0xFF])) (demo [0xFD, 0xFF, 0xFE, 0xFF])
          (if touch_key (Press [0xFD] 0 0xFE []) \<noteq> 0xFE then 1 else 0)
          [touch_key (Press [0xFD] 0 0xFE []), 0xFF] []"
    by (rule wait_for_key_touch [OF ok]) simp
  then have passed: "fst (wait_for_key 0xFE (demo [0xFD, 0xFF, 0xFE, 0xFF])) = Returned 0"
    "PORTB_trace (snd (wait_for_key 0xFE (demo [0xFD, 0xFF, 0xFE, 0xFF]))) = [0xFE, 0xFF]"
    by (simp_all add: outcome_def)
  have held: "fst (wait_for_key 0xFE (demo (replicate (2 * KEYTIMEOUT + 4) 0xFD))) = Starved"
    using wait_for_key_held [of "demo (replicate (2 * KEYTIMEOUT + 4) 0xFD)" "0xFE"]
    by simp
  have "spec_pressed False [0xFF, 0xFB, 0xFF, 0xFD, 0xFF, 0xFE, 0xFF] = [0xFB, 0xFD, 0xFE]"
    "spec_pressed False [0xFD, 0xFF, 0xFE, 0xFF] = [0xFD, 0xFE]"
    by simp_all
  with won passed held demo_expected_2 show ?thesis
    by (intro conjI)
qed

text \<open>
  Five rounds right at level 0, then the samples of the celebration; the lost game from
  above; and the rounds that the won game is made of.
\<close>

theorem win_and_lose_witness:
  "fst (play (demo (game_samples (perfect_rounds 626 1 6) @ replicate 14400 0xFF))) = Returned 1 \<and>
   PORTB_trace (snd (play_and_feedback
       (demo (game_samples (perfect_rounds 626 1 6) @ replicate 14400 0xFF))))
     = game_trace 626 1 6 @
       concat (replicate 3 [0xFE, 0xFF, 0xFE, 0xFF, 0xFD, 0xFF, 0xFD, 0xFF,
                            0xFB, 0xFF, 0xFB, 0xFF, 0xF7, 0xFF, 0xF7, 0xFF]) \<and>
   fst (play (demo (game_samples (perfect_rounds 626 1 3) @ replicate 10800 0xFF
                      @ touch_samples (Press [] 0 0xFD []) @ replicate 9000 0xFF))) = Returned 0 \<and>
   (\<exists>gs. good_rounds 626 1 gs \<and> length gs = 5 \<and>
         game_samples (perfect_rounds 626 1 6) @ replicate 14400 0xFF
           = game_samples gs @ replicate 14400 0xFF)"
proof -
  let ?win = "demo (game_samples (perfect_rounds 626 1 6) @ replicate 14400 0xFF)"
  let ?rs = "perfect_rounds 626 1 3"
  let ?pre = "replicate 10800 (0xFF :: u8)"
  let ?lose = "demo (game_samples ?rs @ ?pre @ touch_samples (Press [] 0 0xFD [])
                  @ replicate 9000 0xFF)"
  have five: "(5 :: nat) \<le> 16"
    by simp
  have w5: "seq_len ?win = int 5" and l5: "seq_len ?lose = int 5"
    by simp_all
  have gw: "good_rounds (seq ?win) 1 (perfect_rounds 626 1 6)"
    and gl: "good_rounds (seq ?lose) 1 ?rs"
    by (simp_all add: good_perfect_rounds)
  have fw: "fair_rounds 1 (perfect_rounds 626 1 6) \<and> length (perfect_rounds 626 1 6) = 5 \<and>
      PIND_input ?win = game_samples (perfect_rounds 626 1 6) @ replicate 14400 0xFF"
    using gw by (simp add: good_rounds_iff)
  from win_and_lose [where s = ?win and n = 5 and rs = "perfect_rounds 626 1 6"
      and rest = "replicate 14400 0xFF", OF w5 five, THEN conjunct1, THEN mp, OF fw] gw
  have won: "fst (play ?win) = Returned 1"
    by (simp add: good_rounds_iff)
  have hw: "good_rounds (seq ?win) 1 (perfect_rounds 626 1 6) \<and>
      length (perfect_rounds 626 1 6) = 5 \<and>
      PIND_input ?win = game_samples (perfect_rounds 626 1 6) @ replicate 14400 0xFF @ [] \<and>
      length (replicate 14400 (0xFF :: u8)) = 48 * nat DELAYTIME"
    using gw by (simp add: DELAYTIME_def)
  from win_and_lose [where s = ?win and n = 5 and rs = "perfect_rounds 626 1 6"
      and post = "replicate 14400 0xFF" and rest = "[]",
      OF w5 five, THEN conjunct2, THEN conjunct1, THEN mp, OF hw]
  obtain t u where tu: "play ?win = (Returned 1, t)" "PIND_input t = replicate 14400 0xFF"
    "PORTB_trace t = game_trace 626 1 6" "play_and_feedback ?win = celebrate t"
    "celebrate t = (Returned (), u)"
    "PORTB_trace u = PORTB_trace t @
       concat (replicate 3 [0xFE, 0xFF, 0xFE, 0xFF, 0xFD, 0xFF, 0xFD, 0xFF,
                            0xFB, 0xFF, 0xFB, 0xFF, 0xF7, 0xFF, 0xF7, 0xFF])"
    by auto
  then have cheered:
    "PORTB_trace (snd (play_and_feedback ?win)) = game_trace 626 1 6 @
       concat (replicate 3 [0xFE, 0xFF, 0xFE, 0xFF, 0xFD, 0xFF, 0xFD, 0xFF,
                            0xFB, 0xFF, 0xFB, 0xFF, 0xF7, 0xFF, 0xF7, 0xFF])"
    by simp
  have hl: "good_rounds (seq ?lose) 1 ?rs \<and> length ?rs < 5 \<and>
      length ?pre = (12 + 8 * Suc (length ?rs)) * nat DELAYTIME \<and>
      list_all touch_ok [] \<and> map touch_key [] = expected (seq ?lose) 0 0 \<and> 0 \<le> length ?rs \<and>
      touch_ok (Press [] 0 0xFD []) \<and> touch_key (Press [] 0 0xFD []) \<noteq> pattern_at (seq ?lose) 0 \<and>
      PIND_input ?lose = game_samples ?rs @ ?pre @ concat (map touch_samples [])
                       @ touch_samples (Press [] 0 0xFD []) @ replicate 9000 0xFF"
    using gl by (simp add: DELAYTIME_def demo_patterns)
  from win_and_lose [where s = ?lose and n = 5 and rs = ?rs and pre = ?pre and ts = "[]"
      and m = 0 and bad = "Press [] 0 0xFD []" and rest = "replicate 9000 0xFF",
      OF l5 five, THEN conjunct2, THEN conjunct2, THEN conjunct1, THEN mp, OF hl]
  have lost: "fst (play ?lose) = Returned 0"
    by simp
  from win_and_lose [where s = ?win and n = 5 and w = 1 and v = t,
      OF w5 five, THEN conjunct2, THEN conjunct2, THEN conjunct2, THEN mp, OF tu(1)]
  have made: "\<exists>gs. good_rounds 626 1 gs \<and> length gs = 5 \<and>
         game_samples (perfect_rounds 626 1 6) @ replicate 14400 0xFF
           = game_samples gs @ replicate 14400 0xFF"
    by (simp add: tu(2))
  from won cheered lost made show ?thesis
    by (intro conjI)
qed

text \<open>
  The claim as it was stated, with the player winning exactly when the keys pressed
  reproduce the sequence, fails in round 1 of this game. The keys are released during the
  playback; then the wrong key \<^verbatim>\<open>0xFE\<close> goes down and is held for three samples, and after
  one sample with all keys released the right key \<^verbatim>\<open>0xFB\<close> follows. The wrong key falls into
  the wait for release that opens \<^verbatim>\<open>wait_for_key\<close> and is not judged: with the other rounds
  right the game is won, though two keys were pressed where one was shown. In the other
  direction, the right key \<^verbatim>\<open>0xFB\<close> that goes down in the last sample of the playback and is
  held for one sample more is not judged either: the only key pressed is the right one,
  yet the round is lost on the timeout, and the port never mirrors the key.
\<close>

theorem wrong_key_first_counterexample:
  "spec_pressed False (replicate 6000 0xFF @ [0xFE, 0xFE, 0xFE, 0xFF, 0xFB, 0xFF])
     = [0xFE, 0xFB] \<and>
   expected 626 0 1 = [0xFB] \<and>
   fst (play (demo (replicate 6000 0xFF @ [0xFE, 0xFE, 0xFE, 0xFF, 0xFB, 0xFF]
                      @ game_samples (perfect_rounds 626 2 6)))) = Returned 1 \<and>
   spec_pressed False (replicate 5999 0xFF @ [0xFB, 0xFB] @ replicate (KEYTIMEOUT + 3) 0xFF)
     = [0xFB] \<and>
   fst (play (demo (replicate 5999 0xFF @ [0xFB, 0xFB] @ replicate (KEYTIMEOUT + 3) 0xFF)))
     = Returned 0 \<and>
   PORTB_trace (snd (play (demo (replicate 5999 0xFF @ [0xFB, 0xFB]
                                  @ replicate (KEYTIMEOUT + 3) 0xFF))))
     = [0xFB, 0xFF, 0xFF, 0xFF]"
proof -
  let ?r1 = "(replicate 6000 (0xFF :: u8), [Press [0xFE, 0xFE, 0xFE] 0 0xFB []])"
  let ?rs = "?r1 # perfect_rounds 626 2 6"
  let ?inp = "replicate 6000 0xFF @ [0xFE, 0xFE, 0xFE, 0xFF, 0xFB, 0xFF]
                @ game_samples (perfect_rounds 626 2 6)"
  have g2: "good_rounds 626 2 (perfect_rounds 626 2 6)"
    by (simp add: good_perfect_rounds)
  have "good_rounds 626 1 ?rs"
    unfolding good_rounds.simps Suc_1
    using g2 by (simp add: demo_expected_1 DELAYTIME_def)
  then have good: "good_rounds (seq (demo ?inp)) 1 ?rs"
    by (simp only: demo_fields)
  have inp: "PIND_input (demo ?inp) = game_samples ?rs @ []"
    by (simp add: round_samples_def)
  have "outcome (play_rounds (int 1) (demo ?inp)) (demo ?inp) 1
          (game_trace (seq (demo ?inp)) 1 (1 + length ?rs)) []"
    by (rule play_rounds_good [OF good _ _ inp]) simp_all
  then have won: "fst (play (demo ?inp)) = Returned 1"
    by (simp add: outcome_def play_def)
  let ?pre = "replicate 5999 (0xFF :: u8) @ [0xFB]"
  let ?out = "replicate 5999 0xFF @ [0xFB, 0xFB] @ replicate (KEYTIMEOUT + 3) 0xFF"
  have "replicate (KEYTIMEOUT + 3) (0xFF :: u8) = replicate (KEYTIMEOUT + 2) 0xFF @ [0xFF]"
    unfolding replicate_append_same by (simp add: numeral_3_eq_3 numeral_2_eq_2)
  then have out: "PIND_input (demo ?out) = game_samples [] @ ?pre @ concat (map touch_samples [])
      @ touch_samples (Silent [0xFB] []) @ []"
    by simp
  have "outcome (play_rounds (int 1) (demo ?out)) (demo ?out) 0
     (game_trace (seq (demo ?out)) 1 (1 + length ([] :: round list))
        @ showing (expected (seq (demo ?out)) 0 (1 + length ([] :: round list)))
        @ showing (expected (seq (demo ?out)) 0 0) @ [touch_key (Silent [0xFB] []), 0xFF]) []"
    by (rule play_rounds_bad [where pre = ?pre and ts = "[]", OF _ _ _ _ _ _ _ _ _ out])
       (simp_all add: DELAYTIME_def demo_patterns)
  then have lost: "fst (play (demo ?out)) = Returned 0"
    "PORTB_trace (snd (play (demo ?out))) = [0xFB, 0xFF, 0xFF, 0xFF]"
    by (simp_all add: outcome_def play_def demo_expected_1)
  have p1: "spec_pressed False (replicate 6000 0xFF @ [0xFE, 0xFE, 0xFE, 0xFF, 0xFB, 0xFF])
      = [0xFE, 0xFB]"
    unfolding spec_pressed_released by simp
  have p2: "spec_pressed False (replicate 5999 0xFF @ [0xFB, 0xFB]
      @ replicate (KEYTIMEOUT + 3) 0xFF) = [0xFB]"
    unfolding spec_pressed_released by (simp add: spec_pressed_replicate)
  have e1: "expected 626 0 1 = [0xFB]"
    using demo_expected_1 by simp
  from p1 e1 won p2 lost show ?thesis
    by (intro conjI)
qed

end
